theory Spec2Isabelle
  imports Main "HOL-Library.AList"
begin

section \<open>localstore: a directory-backed key-value store with a sorted filename index\<close>

text \<open>
  The Go package \<^verbatim>\<open>localstore\<close> (files \<^verbatim>\<open>localstore.go\<close> and \<^verbatim>\<open>options.go\<close>) is embedded
  as pure functions that take the store and the filesystem and return the updated ones.
  A Go \<^verbatim>\<open>error\<close> result is an \<open>error option\<close> (\<open>None\<close> is \<^verbatim>\<open>nil\<close>); a runtime panic is a
  value of its own. Go's \<^verbatim>\<open>int\<close> is modelled by \<open>int\<close>: the only arithmetic on it is the
  loop counter of \<^verbatim>\<open>List\<close>, which is incremented below a bound and cannot overflow. The
  reader/writer mutex is not modelled: every operation is taken as one atomic step.
\<close>

subsection \<open>Errors\<close>

text \<open>
  Modelled from the spec: \<^verbatim>\<open>ErrNotExist\<close>, the not-found condition that \<^verbatim>\<open>Get\<close> returns, is
  declared in a file of the package that is not among the sources. Every other error
  value comes from the file layer or from the codec and is propagated verbatim; \<open>Err\<close>
  carries its message.
\<close>

datatype error = ErrNotExist | Err string

subsection \<open>The file layer\<close>

text \<open>
  The external collaborators (\<^verbatim>\<open>github.com/thamaji/files\<close> and the Go standard library) are
  not part of the repository. They are modelled as standard filesystem primitives over a
  finite table from paths to nodes. Any primitive can also fail with an injected fault
  (permission denied, I/O error), looked up by operation and path.
\<close>

datatype node = Dir | File string

datatype fsop = FsReadDir | FsOpen | FsStat | FsOpenRead | FsOpenWrite | FsClose | FsRemove

record fsys =
  nodes :: "(string \<times> node) list"
  fault :: "fsop \<Rightarrow> string \<Rightarrow> error option"

text \<open>\<^verbatim>\<open>filepath.Join\<close>, without the normalisation of \<^verbatim>\<open>filepath.Clean\<close>.\<close>

definition filepath_Join :: "string \<Rightarrow> string \<Rightarrow> string" where
  "filepath_Join d name = d @ ''/'' @ name"

text \<open>
  \<^verbatim>\<open>filepath.Ext\<close>: the suffix beginning at the final dot of the final path element, empty
  when that element has no dot. The Go loop walks from the end of the string; here the
  walk is over the reversed string, with the suffix seen so far as accumulator.
\<close>

fun Ext_loop :: "string \<Rightarrow> string \<Rightarrow> string" where
  "Ext_loop [] acc = []"
| "Ext_loop (c # cs) acc =
     (if c = CHR ''/'' then []
      else if c = CHR ''.'' then c # acc
      else Ext_loop cs (c # acc))"

definition filepath_Ext :: "string \<Rightarrow> string" where
  "filepath_Ext path = Ext_loop (rev path) []"

text \<open>The name of a direct entry of directory \<open>d\<close>, from its path.\<close>

definition entry_of :: "string \<Rightarrow> string \<Rightarrow> string option" where
  "entry_of d p =
     (let pre = d @ ''/''; name = drop (length pre) p
      in if take (length pre) p = pre \<and> name \<noteq> [] \<and> CHR ''/'' \<notin> set name
         then Some name else None)"

text \<open>
  Reading the names of a directory returns the names and an error, as Go's
  \<^verbatim>\<open>Readdirnames\<close> does. \<^verbatim>\<open>files.MustReadDirnames\<close> has the single result \<^verbatim>\<open>[]string\<close>: it has
  no way to report the error and returns the names alone. (\<^verbatim>\<open>Delete\<close> calls its sibling
  \<^verbatim>\<open>files.MustIsEmptyDir\<close> on a path it has just removed, where the test cannot be made:
  the \<^verbatim>\<open>Must\<close> functions of this library give a default result on an error.)
\<close>

definition files_ReadDirnames :: "fsys \<Rightarrow> string \<Rightarrow> string list \<times> error option" where
  "files_ReadDirnames fs d =
     (case fault fs FsReadDir d of
        Some e \<Rightarrow> ([], Some e)
      | None \<Rightarrow>
         (case map_of (nodes fs) d of
            None \<Rightarrow> ([], Some (Err ''no such file or directory''))
          | Some (File b) \<Rightarrow> ([], Some (Err ''not a directory''))
          | Some Dir \<Rightarrow> (List.map_filter (entry_of d) (map fst (nodes fs)), None)))"

definition files_MustReadDirnames :: "fsys \<Rightarrow> string \<Rightarrow> string list" where
  "files_MustReadDirnames fs d = fst (files_ReadDirnames fs d)"

text \<open>\<^verbatim>\<open>files.Open\<close>: the handle is the node found at the path.\<close>

definition files_Open :: "fsys \<Rightarrow> string \<Rightarrow> error + node" where
  "files_Open fs p =
     (case fault fs FsOpen p of
        Some e \<Rightarrow> Inl e
      | None \<Rightarrow>
         (case map_of (nodes fs) p of
            None \<Rightarrow> Inl (Err ''no such file or directory'')
          | Some n \<Rightarrow> Inr n))"

text \<open>\<^verbatim>\<open>f.Stat()\<close> followed by \<^verbatim>\<open>fi.IsDir()\<close>: an error, or whether the node is a directory.\<close>

definition file_Stat :: "fsys \<Rightarrow> string \<Rightarrow> node \<Rightarrow> error + bool" where
  "file_Stat fs p f =
     (case fault fs FsStat p of
        Some e \<Rightarrow> Inl e
      | None \<Rightarrow> Inr (f = Dir))"

text \<open>The bytes a reader yields: a regular file's contents.\<close>

fun contents :: "node \<Rightarrow> string" where
  "contents (File b) = b"
| "contents Dir = []"

text \<open>\<^verbatim>\<open>files.OpenFileReader\<close>: opens a regular file for reading.\<close>

definition files_OpenFileReader :: "fsys \<Rightarrow> string \<Rightarrow> error + node" where
  "files_OpenFileReader fs p =
     (case fault fs FsOpenRead p of
        Some e \<Rightarrow> Inl e
      | None \<Rightarrow>
         (case map_of (nodes fs) p of
            None \<Rightarrow> Inl (Err ''no such file or directory'')
          | Some Dir \<Rightarrow> Inl (Err ''is a directory'')
          | Some (File b) \<Rightarrow> Inr (File b)))"

text \<open>\<^verbatim>\<open>files.OpenFileWriter\<close>: create-or-truncate; the file is empty once opened.\<close>

definition files_OpenFileWriter :: "fsys \<Rightarrow> string \<Rightarrow> error + fsys" where
  "files_OpenFileWriter fs p =
     (case fault fs FsOpenWrite p of
        Some e \<Rightarrow> Inl e
      | None \<Rightarrow>
         (case map_of (nodes fs) p of
            Some Dir \<Rightarrow> Inl (Err ''is a directory'')
          | _ \<Rightarrow> Inr (fs\<lparr>nodes := AList.update p (File []) (nodes fs)\<rparr>)))"

text \<open>The bytes written through the open file replace its contents.\<close>

definition file_Write :: "fsys \<Rightarrow> string \<Rightarrow> string \<Rightarrow> fsys" where
  "file_Write fs p b = fs\<lparr>nodes := AList.update p (File b) (nodes fs)\<rparr>"

definition file_Close :: "fsys \<Rightarrow> string \<Rightarrow> error option" where
  "file_Close fs p = fault fs FsClose p"

text \<open>Whether some path lies below directory \<open>p\<close>.\<close>

definition has_children :: "fsys \<Rightarrow> string \<Rightarrow> bool" where
  "has_children fs p = list_ex (\<lambda>q. take (length (p @ ''/'')) q = p @ ''/'') (map fst (nodes fs))"

text \<open>\<^verbatim>\<open>files.Remove\<close>: removes a file or an empty directory.\<close>

definition files_Remove :: "fsys \<Rightarrow> string \<Rightarrow> error + fsys" where
  "files_Remove fs p =
     (case fault fs FsRemove p of
        Some e \<Rightarrow> Inl e
      | None \<Rightarrow>
         (case map_of (nodes fs) p of
            None \<Rightarrow> Inl (Err ''no such file or directory'')
          | Some n \<Rightarrow>
             if n = Dir \<and> has_children fs p then Inl (Err ''directory not empty'')
             else Inr (fs\<lparr>nodes := AList.delete p (nodes fs)\<rparr>)))"

text \<open>\<^verbatim>\<open>files.MustIsEmptyDir\<close>: a single boolean result; false when the test cannot be made.\<close>

definition files_MustIsEmptyDir :: "fsys \<Rightarrow> string \<Rightarrow> bool" where
  "files_MustIsEmptyDir fs p = (map_of (nodes fs) p = Some Dir \<and> \<not> has_children fs p)"

subsection \<open>Standard library functions the store calls\<close>

text \<open>
  \<^verbatim>\<open>url.PathEscape\<close>: every byte is kept or replaced by \<^verbatim>\<open>%XX\<close> (upper-case hexadecimal).
  In a path segment the letters, the digits, \<^verbatim>\<open>-_.~\<close> and \<^verbatim>\<open>$&+=:@\<close> are kept.
\<close>

definition shouldEscape :: "char \<Rightarrow> bool" where
  "shouldEscape c =
     (let n = (of_char c :: nat) in
      if (97 \<le> n \<and> n \<le> 122) \<or> (65 \<le> n \<and> n \<le> 90) \<or> (48 \<le> n \<and> n \<le> 57) then False
      else if c \<in> set ''-_.~'' then False
      else if c \<in> set ''$&+,/:;=?@'' then c \<in> set ''/;,?''
      else True)"

definition upperhex :: string where
  "upperhex = ''0123456789ABCDEF''"

definition escape_byte :: "char \<Rightarrow> string" where
  "escape_byte c =
     [CHR ''%'', upperhex ! ((of_char c :: nat) div 16), upperhex ! ((of_char c :: nat) mod 16)]"

definition url_PathEscape :: "string \<Rightarrow> string" where
  "url_PathEscape s = concat (map (\<lambda>c. if shouldEscape c then escape_byte c else [c]) s)"

text \<open>\<^verbatim>\<open>strings.Compare\<close>: the three-way lexicographic comparison of two byte strings.\<close>

fun strings_Compare :: "string \<Rightarrow> string \<Rightarrow> int" where
  "strings_Compare [] [] = 0"
| "strings_Compare [] (y # ys) = - 1"
| "strings_Compare (x # xs) [] = 1"
| "strings_Compare (x # xs) (y # ys) =
     (if (of_char x :: nat) < of_char y then - 1
      else if (of_char y :: nat) < of_char x then 1
      else strings_Compare xs ys)"

text \<open>
  \<^verbatim>\<open>sort.Find(n, cmp)\<close>: binary search for the smallest index \<open>i\<close> in \<open>[0, n]\<close> with
  \<open>cmp i \<le> 0\<close>; found when \<open>i < n\<close> and \<open>cmp i = 0\<close>. The loop is the one of the Go library:
  \<^verbatim>\<open>i, j := 0, n; for i < j { h := (i+j)/2; if cmp(h) > 0 { i = h+1 } else { j = h } }\<close>.
\<close>

function sort_Find_loop :: "(nat \<Rightarrow> int) \<Rightarrow> nat \<Rightarrow> nat \<Rightarrow> nat" where
  "sort_Find_loop cmp i j =
     (if i < j then
        (let h = (i + j) div 2 in
         if cmp h > 0 then sort_Find_loop cmp (h + 1) j else sort_Find_loop cmp i h)
      else i)"
  by pat_completeness auto
termination
  by (relation "measure (\<lambda>(cmp, i, j). j - i)") auto

declare sort_Find_loop.simps [simp del]

definition sort_Find :: "nat \<Rightarrow> (nat \<Rightarrow> int) \<Rightarrow> nat \<times> bool" where
  "sort_Find n cmp = (let i = sort_Find_loop cmp 0 n in (i, i < n \<and> cmp i = 0))"

text \<open>
  \<^verbatim>\<open>sort.Slice\<close> sorts in place with an unstable algorithm of the Go library. It is
  modelled by an insertion sort under the same \<open>less\<close>: for a comparator that is a total
  order the sorted sequence is unique, so the algorithm cannot be observed.
\<close>

fun insert_less :: "(string \<Rightarrow> string \<Rightarrow> bool) \<Rightarrow> string \<Rightarrow> string list \<Rightarrow> string list" where
  "insert_less lt x [] = [x]"
| "insert_less lt x (y # ys) = (if lt x y then x # y # ys else y # insert_less lt x ys)"

fun sort_Slice :: "(string \<Rightarrow> string \<Rightarrow> bool) \<Rightarrow> string list \<Rightarrow> string list" where
  "sort_Slice lt [] = []"
| "sort_Slice lt (x # xs) = insert_less lt x (sort_Slice lt xs)"

subsection \<open>The store\<close>

text \<open>
  An encoder writes bytes to the file and returns an error or none; a decoder reads the
  bytes of the file and returns a value and an error or none. Both are pure functions of
  their argument here.
\<close>

type_synonym 'v Encoder = "'v \<Rightarrow> string \<times> error option"
type_synonym 'v Decoder = "string \<Rightarrow> 'v \<times> error option"
type_synonym Comparator = "string \<Rightarrow> string \<Rightarrow> int"

record 'v Options =
  Ext :: string
  Comparator :: "Comparator option"
  Encoder :: "'v Encoder option"
  Decoder :: "'v Decoder option"

text \<open>
  What Go derives from the type parameter \<^verbatim>\<open>T\<close>: its zero value \<^verbatim>\<open>*new(T)\<close>, the largest
  capacity that \<^verbatim>\<open>make([]T, 0, cap)\<close> accepts (the allocation limit of the runtime divided by
  the size of a \<^verbatim>\<open>T\<close>; beyond it \<^verbatim>\<open>make\<close> panics with \<^verbatim>\<open>makeslice: cap out of range\<close>), and the
  default codec of \<^verbatim>\<open>encoding/gob\<close> at that type.
\<close>

record 'v type_param =
  zero_T :: 'v
  maxcap_T :: int
  gob_Encode :: "'v Encoder"
  gob_Decode :: "'v Decoder"

record 'v LocalStore =
  dir :: string
  ext :: string
  comparator :: Comparator
  encoder :: "'v Encoder"
  decoder :: "'v Decoder"
  index :: "string list"
  zero :: 'v
  maxcap :: int

definition New :: "'v type_param \<Rightarrow> string \<Rightarrow> 'v Options option \<Rightarrow> 'v LocalStore" where
  "New T d opt =
     (let s = \<lparr>dir = d, ext = ''.dat'', comparator = strings_Compare,
               encoder = gob_Encode T, decoder = gob_Decode T, index = [], zero = zero_T T,
               maxcap = maxcap_T T\<rparr>
      in case opt of
           None \<Rightarrow> s
         | Some opt \<Rightarrow>
            (let s1 = (if Ext opt \<noteq> [] then s\<lparr>ext := Ext opt\<rparr> else s);
                 s2 = (case Comparator opt of Some c \<Rightarrow> s1\<lparr>comparator := c\<rparr> | None \<Rightarrow> s1);
                 s3 = (case Encoder opt of Some e \<Rightarrow> s2\<lparr>encoder := e\<rparr> | None \<Rightarrow> s2);
                 s4 = (case Decoder opt of Some d \<Rightarrow> s3\<lparr>decoder := d\<rparr> | None \<Rightarrow> s3)
             in s4))"

record 'v List_t =
  Values :: "'v list"
  Offset :: int
  Limit :: int
  Total :: int

text \<open>A call either panics (a Go runtime panic) or returns.\<close>

datatype 'a outcome = Panic | Return 'a

subsubsection \<open>Load\<close>

text \<open>The filter loop of \<^verbatim>\<open>Load\<close>: a name whose \<^verbatim>\<open>filepath.Ext\<close> differs is skipped.\<close>

fun Load_loop :: "string \<Rightarrow> string list \<Rightarrow> string list \<Rightarrow> string list" where
  "Load_loop e [] idx = idx"
| "Load_loop e (name # names) idx =
     (if filepath_Ext name \<noteq> e then Load_loop e names idx
      else Load_loop e names (idx @ [name]))"

definition Load :: "'v LocalStore \<Rightarrow> fsys \<Rightarrow> error option \<times> 'v LocalStore" where
  "Load s fs =
     (let names = files_MustReadDirnames fs (dir s);
          idx = Load_loop (ext s) names [];
          idx = sort_Slice (\<lambda>a b. comparator s a b < 0) idx
      in (None, s\<lparr>index := idx\<rparr>))"

subsubsection \<open>List\<close>

text \<open>
  The loop \<^verbatim>\<open>for i := offset; i < cap; i++\<close>. Reading \<^verbatim>\<open>s.index[i]\<close> outside the slice is
  a runtime panic. The empty page \<^verbatim>\<open>List[T]{}\<close> is returned with an error. Before the loop,
  \<^verbatim>\<open>values := make([]T, 0, cap)\<close> panics when \<open>cap\<close> is beyond the largest capacity of the
  element type (\<open>cap\<close> is never negative there).
\<close>

definition empty_List :: "'v List_t" where
  "empty_List = \<lparr>Values = [], Offset = 0, Limit = 0, Total = 0\<rparr>"

function List_loop ::
  "'v LocalStore \<Rightarrow> fsys \<Rightarrow> int \<Rightarrow> int \<Rightarrow> 'v list \<Rightarrow> (error + 'v list) outcome" where
  "List_loop s fs i cap vals =
     (if i < cap then
        (if i < 0 \<or> int (length (index s)) \<le> i then Panic
         else
           (let p = filepath_Join (dir s) (index s ! nat i) in
            case files_Open fs p of
              Inl err \<Rightarrow> Return (Inl err)
            | Inr f \<Rightarrow>
               (case file_Stat fs p f of
                  Inl err \<Rightarrow> Return (Inl err)
                | Inr isDir \<Rightarrow>
                   if isDir then List_loop s fs (i + 1) cap vals
                   else
                     (case decoder s (contents f) of
                        (v, Some err) \<Rightarrow> Return (Inl err)
                      | (v, None) \<Rightarrow> List_loop s fs (i + 1) cap (vals @ [v])))))
      else Return (Inr vals))"
  by pat_completeness auto
termination
  by (relation "measure (\<lambda>(s, fs, i, cap, vals). nat (cap - i))") auto

declare List_loop.simps [simp del]

definition List_op ::
  "'v LocalStore \<Rightarrow> fsys \<Rightarrow> int \<Rightarrow> int \<Rightarrow> ('v List_t \<times> error option) outcome" where
  "List_op s fs offset limit =
     (let cap = (if limit < 0 then int (length (index s)) else limit) in
      if maxcap s < cap then Panic
      else
        (case List_loop s fs offset cap [] of
           Panic \<Rightarrow> Panic
         | Return (Inl err) \<Rightarrow> Return (empty_List, Some err)
         | Return (Inr vals) \<Rightarrow>
             Return (\<lparr>Values = vals, Offset = offset, Limit = limit,
                      Total = int (length (index s))\<rparr>, None)))"

subsubsection \<open>Get\<close>

definition Get :: "'v LocalStore \<Rightarrow> fsys \<Rightarrow> string \<Rightarrow> 'v \<times> error option" where
  "Get s fs key =
     (let name = url_PathEscape key @ ext s;
          path = filepath_Join (dir s) name;
          (i, ok) = sort_Find (length (index s)) (\<lambda>i. comparator s name (index s ! i))
      in if \<not> ok then (zero s, Some ErrNotExist)
         else
           (case files_OpenFileReader fs path of
              Inl err \<Rightarrow> (zero s, Some err)
            | Inr f \<Rightarrow> (case decoder s (contents f) of (v, err) \<Rightarrow> (v, err))))"

subsubsection \<open>Put\<close>

definition Put ::
  "'v LocalStore \<Rightarrow> fsys \<Rightarrow> string \<Rightarrow> 'v \<Rightarrow> error option \<times> 'v LocalStore \<times> fsys" where
  "Put s fs key v =
     (let name = url_PathEscape key @ ext s;
          path = filepath_Join (dir s) name
      in case files_OpenFileWriter fs path of
           Inl err \<Rightarrow> (Some err, s, fs)
         | Inr fs1 \<Rightarrow>
            (let (bytes, err) = encoder s v;
                 fs2 = file_Write fs1 path bytes;
                 err1 = file_Close fs2 path;
                 err = (if err1 \<noteq> None \<and> err = None then err1 else err)
             in if err \<noteq> None then (err, s, fs2)
                else
                  (let (i, ok) = sort_Find (length (index s))
                                   (\<lambda>i. comparator s name (index s ! i))
                   in if \<not> ok
                      then (None, s\<lparr>index := take i (index s) @ ([name] @ drop i (index s))\<rparr>, fs2)
                      else (None, s, fs2))))"

subsubsection \<open>Delete\<close>

definition Delete ::
  "'v LocalStore \<Rightarrow> fsys \<Rightarrow> string \<Rightarrow> error option \<times> 'v LocalStore \<times> fsys" where
  "Delete s fs key =
     (let name = url_PathEscape key @ ext s;
          path = filepath_Join (dir s) name;
          (i, ok) = sort_Find (length (index s)) (\<lambda>i. comparator s name (index s ! i))
      in if \<not> ok then (None, s, fs)
         else
           (case files_Remove fs path of
              Inl err \<Rightarrow> (Some err, s, fs)
            | Inr fs1 \<Rightarrow>
               (let fs2 = (if files_MustIsEmptyDir fs1 path
                           then (case files_Remove fs1 path of Inl e \<Rightarrow> fs1 | Inr fs' \<Rightarrow> fs')
                           else fs1)
                in (None, s\<lparr>index := take i (index s) @ drop (i + 1) (index s)\<rparr>, fs2))))"

subsection \<open>The comparator as a total order, and the sorted index\<close>

definition total_order :: "Comparator \<Rightarrow> bool" where
  "total_order c \<longleftrightarrow>
     (\<forall>a. c a a = 0) \<and> (\<forall>a b. c a b = 0 \<longrightarrow> a = b) \<and>
     (\<forall>a b. (0 < c a b) = (c b a < 0)) \<and>
     (\<forall>a b d. c a b \<le> 0 \<longrightarrow> c b d \<le> 0 \<longrightarrow> c a d \<le> 0)"

definition index_sorted :: "Comparator \<Rightarrow> string list \<Rightarrow> bool" where
  "index_sorted c idx = sorted_wrt (\<lambda>a b. c a b \<le> 0) idx"

text \<open>Decoding after encoding gives the value back.\<close>

definition codec_ok :: "'v Encoder \<Rightarrow> 'v Decoder \<Rightarrow> bool" where
  "codec_ok enc dec \<longleftrightarrow> (\<forall>v b. enc v = (b, None) \<longrightarrow> dec b = (v, None))"

subsection \<open>Sequences of calls\<close>

datatype 'v call = Load_call | Put_call string 'v | Delete_call string

fun exec :: "'v LocalStore \<times> fsys \<Rightarrow> 'v call \<Rightarrow> 'v LocalStore \<times> fsys" where
  "exec (s, fs) Load_call = (snd (Load s fs), fs)"
| "exec (s, fs) (Put_call key v) = snd (Put s fs key v)"
| "exec (s, fs) (Delete_call key) = snd (Delete s fs key)"

definition run :: "'v LocalStore \<Rightarrow> fsys \<Rightarrow> 'v call list \<Rightarrow> 'v LocalStore \<times> fsys" where
  "run s fs calls = foldl exec (s, fs) calls"

subsection \<open>Filenames, and what a page of \<^verbatim>\<open>List\<close> holds\<close>

text \<open>
  The filename a key maps to, and its path: the \<^verbatim>\<open>name\<close> and \<^verbatim>\<open>path\<close> that \<^verbatim>\<open>Get\<close>, \<^verbatim>\<open>Put\<close> and
  \<^verbatim>\<open>Delete\<close> compute first.
\<close>

definition filename :: "'v LocalStore \<Rightarrow> string \<Rightarrow> string" where
  "filename s key = url_PathEscape key @ ext s"

definition path_of :: "'v LocalStore \<Rightarrow> string \<Rightarrow> string" where
  "path_of s key = filepath_Join (dir s) (filename s key)"

text \<open>
  The value that index position \<open>i\<close> contributes to a page: the decoded contents of its
  file, and nothing when the path is a directory.
\<close>

definition decode_at :: "'v LocalStore \<Rightarrow> fsys \<Rightarrow> int \<Rightarrow> 'v option" where
  "decode_at s fs i =
     (case files_Open fs (filepath_Join (dir s) (index s ! nat i)) of
        Inr (File b) \<Rightarrow> Some (fst (decoder s b))
      | _ \<Rightarrow> None)"

text \<open>
  Index position \<open>i\<close> can be read: its path opens and stats without error and, unless it
  is a directory, its contents decode without error.
\<close>

definition entry_ok :: "'v LocalStore \<Rightarrow> fsys \<Rightarrow> int \<Rightarrow> bool" where
  "entry_ok s fs i =
     (let p = filepath_Join (dir s) (index s ! nat i) in
      case files_Open fs p of
        Inl err \<Rightarrow> False
      | Inr f \<Rightarrow>
         (case file_Stat fs p f of
            Inl err \<Rightarrow> False
          | Inr isDir \<Rightarrow> isDir \<or> snd (decoder s (contents f)) = None))"

subsection \<open>Concrete stores and filesystems\<close>

text \<open>
  A store of byte strings whose codec is the identity. A string value takes 16 bytes and
  the runtime allocates at most \<open>2 ^ 48\<close> bytes, so the largest capacity is \<open>2 ^ 44\<close>.
\<close>

definition bytes_T :: "string type_param" where
  "bytes_T = \<lparr>zero_T = [], maxcap_T = 17592186044416,
               gob_Encode = (\<lambda>v. (v, None)), gob_Decode = (\<lambda>b. (b, None))\<rparr>"

definition no_fault :: "fsop \<Rightarrow> string \<Rightarrow> error option" where
  "no_fault op' p = None"

text \<open>A filesystem with the empty directory \<^verbatim>\<open>d\<close> and no fault.\<close>

definition fs_d :: fsys where
  "fs_d = \<lparr>nodes = [(''d'', Dir)], fault = no_fault\<rparr>"

text \<open>The store and the filesystem after \<^verbatim>\<open>Put("k", "v")\<close> and \<^verbatim>\<open>Put("a", "w")\<close>.\<close>

definition store_ak :: "string LocalStore" where
  "store_ak = fst (run (New bytes_T ''d'' None) fs_d [Put_call ''k'' ''v'', Put_call ''a'' ''w''])"

definition fs_ak :: fsys where
  "fs_ak = snd (run (New bytes_T ''d'' None) fs_d [Put_call ''k'' ''v'', Put_call ''a'' ''w''])"

text \<open>The store after \<^verbatim>\<open>Put("a", "v")\<close>, and its directory once it cannot be read.\<close>

definition store_a :: "string LocalStore" where
  "store_a = fst (snd (Put (New bytes_T ''d'' None) fs_d ''a'' ''v''))"

definition fs_denied :: fsys where
  "fs_denied = \<lparr>nodes = [(''d'', Dir), (''d/a.dat'', File ''v'')],
                 fault = (\<lambda>op' p. if op' = FsReadDir then Some (Err ''permission denied'') else None)\<rparr>"

text \<open>A store configured with the extension \<^verbatim>\<open>.tar.gz\<close>, after \<^verbatim>\<open>Put("a", "v")\<close>.\<close>

definition targz_opts :: "string Options" where
  "targz_opts = \<lparr>Ext = ''.tar.gz'', Comparator = None, Encoder = None, Decoder = None\<rparr>"

definition store_targz :: "string LocalStore" where
  "store_targz = fst (snd (Put (New bytes_T ''d'' (Some targz_opts)) fs_d ''a'' ''v''))"

definition fs_targz :: fsys where
  "fs_targz = snd (snd (Put (New bytes_T ''d'' (Some targz_opts)) fs_d ''a'' ''v''))"

text \<open>The filesystem after \<^verbatim>\<open>Put("a", "v")\<close>.\<close>

definition fs_a :: fsys where
  "fs_a = snd (snd (Put (New bytes_T ''d'' None) fs_d ''a'' ''v''))"

text \<open>The filesystem after \<^verbatim>\<open>Put("a", "v")\<close>, with every removal denied.\<close>

definition fs_locked :: fsys where
  "fs_locked = \<lparr>nodes = [(''d'', Dir), (''d/a.dat'', File ''v'')],
                 fault = (\<lambda>op' p. if op' = FsRemove then Some (Err ''permission denied'') else None)\<rparr>"

text \<open>
  A store whose encoder writes two bytes and then fails, and a filesystem on which every
  close fails.
\<close>

definition failing_opts :: "string Options" where
  "failing_opts = \<lparr>Ext = [], Comparator = None,
                    Encoder = Some (\<lambda>v. (take 2 v, Some (Err ''encode failed''))),
                    Decoder = None\<rparr>"

definition fs_close_fails :: fsys where
  "fs_close_fails = \<lparr>nodes = [(''d'', Dir)],
                      fault = (\<lambda>op' p. if op' = FsClose then Some (Err ''close failed'') else None)\<rparr>"

definition fs_read_only :: fsys where
  "fs_read_only = \<lparr>nodes = [(''d'', Dir)],
                    fault = (\<lambda>op' p. if op' = FsOpenWrite then Some (Err ''read-only file system'') else None)\<rparr>"

section \<open>Properties\<close>

subsection \<open>Binary search\<close>

lemma total_order_refl: "total_order c \<Longrightarrow> c a a = 0"
  by (simp add: total_order_def)
lemma total_order_eq: "total_order c \<Longrightarrow> c a b = 0 \<Longrightarrow> a = b"
  by (simp add: total_order_def)
lemma total_order_flip: "total_order c \<Longrightarrow> (0 < c a b) = (c b a < 0)"
  by (simp add: total_order_def)
lemma total_order_trans: "total_order c \<Longrightarrow> c a b \<le> 0 \<Longrightarrow> c b d \<le> 0 \<Longrightarrow> c a d \<le> 0"
  unfolding total_order_def by blast

lemma sort_Find_loop_done: "\<not> i < j \<Longrightarrow> sort_Find_loop cmp i j = i"
  by (subst sort_Find_loop.simps) simp

lemma sort_Find_loop_bounds:
  "i \<le> j \<Longrightarrow> i \<le> sort_Find_loop cmp i j \<and> sort_Find_loop cmp i j \<le> j"
proof (induction cmp i j rule: sort_Find_loop.induct)
  case (1 cmp i j)
  show ?case
  proof (cases "i < j")
    case False
    with "1.prems" show ?thesis by (simp add: sort_Find_loop_done)
  next
    case True
    define h where "h = (i + j) div 2"
    have hb: "i \<le> h" "h < j" using True by (simp_all add: h_def)
    show ?thesis
    proof (cases "cmp h > 0")
      case c: True
      have "h + 1 \<le> sort_Find_loop cmp (h + 1) j \<and> sort_Find_loop cmp (h + 1) j \<le> j"
        using "1.IH"(1)[OF True h_def c] hb by simp
      moreover have "sort_Find_loop cmp i j = sort_Find_loop cmp (h + 1) j"
        using True c by (subst sort_Find_loop.simps) (simp add: h_def Let_def)
      ultimately show ?thesis using hb by simp
    next
      case c: False
      have "i \<le> sort_Find_loop cmp i h \<and> sort_Find_loop cmp i h \<le> h"
        using "1.IH"(2)[OF True h_def c] hb by simp
      moreover have "sort_Find_loop cmp i j = sort_Find_loop cmp i h"
        using True c by (subst sort_Find_loop.simps) (simp add: h_def Let_def)
      ultimately show ?thesis using hb by simp
    qed
  qed
qed

lemma sort_Find_loop_split:
  "(\<forall>h k. h \<le> k \<and> k < n \<and> cmp k > 0 \<longrightarrow> cmp h > 0) \<Longrightarrow>
   i \<le> j \<Longrightarrow> j \<le> n \<Longrightarrow> (\<forall>h<i. cmp h > 0) \<Longrightarrow> (\<forall>h. j \<le> h \<and> h < n \<longrightarrow> cmp h \<le> 0) \<Longrightarrow>
     (\<forall>h < sort_Find_loop cmp i j. cmp h > 0) \<and>
     (\<forall>h. sort_Find_loop cmp i j \<le> h \<and> h < n \<longrightarrow> cmp h \<le> 0)"
proof (induction cmp i j rule: sort_Find_loop.induct)
  case (1 cmp i j)
  note mono = "1.prems"(1)
  show ?case
  proof (cases "i < j")
    case False
    with "1.prems" have "i = j" by simp
    with "1.prems" show ?thesis by (simp add: sort_Find_loop_done)
  next
    case True
    define h where "h = (i + j) div 2"
    have hb: "i \<le> h" "h < j" using True by (simp_all add: h_def)
    show ?thesis
    proof (cases "cmp h > 0")
      case c: True
      have low: "\<forall>k<h + 1. cmp k > 0"
        using mono c hb "1.prems"(3) by (metis Suc_eq_plus1 less_Suc_eq_le less_le_trans)
      have eq: "sort_Find_loop cmp i j = sort_Find_loop cmp (h + 1) j"
        using True c by (subst sort_Find_loop.simps) (simp add: h_def Let_def)
      show ?thesis
        unfolding eq
        using "1.IH"(1)[OF True h_def c mono _ "1.prems"(3) low "1.prems"(5)] hb by simp
    next
      case c: False
      have high: "\<forall>k. h \<le> k \<and> k < n \<longrightarrow> cmp k \<le> 0"
        using mono c by (metis not_le)
      have eq: "sort_Find_loop cmp i j = sort_Find_loop cmp i h"
        using True c by (subst sort_Find_loop.simps) (simp add: h_def Let_def)
      show ?thesis
        unfolding eq
        using "1.IH"(2)[OF True h_def c mono hb(1) _ "1.prems"(4) high] hb "1.prems"(3) by simp
    qed
  qed
qed

text \<open>
  The search calls \<open>cmp\<close> below \<open>n\<close> only, so the callback's \<^verbatim>\<open>s.index[i]\<close> is never out
  of range; and the position it returns is at most \<open>n\<close> (lemma \<open>sort_Find_loop_bounds\<close>).
\<close>

lemma sort_Find_loop_in_range:
  "j \<le> n \<Longrightarrow> (\<forall>h<n. cmp h = cmp' h) \<Longrightarrow> sort_Find_loop cmp i j = sort_Find_loop cmp' i j"
proof (induction cmp i j rule: sort_Find_loop.induct)
  case (1 cmp i j)
  show ?case
  proof (cases "i < j")
    case False
    then show ?thesis by (simp add: sort_Find_loop_done)
  next
    case True
    define h where "h = (i + j) div 2"
    have hb: "h < j" using True by (simp add: h_def)
    then have eq: "cmp h = cmp' h" using "1.prems" by simp
    show ?thesis
    proof (cases "cmp h > 0")
      case c: True
      have "sort_Find_loop cmp (h + 1) j = sort_Find_loop cmp' (h + 1) j"
        using "1.IH"(1)[OF True h_def c "1.prems"] .
      then show ?thesis
        using True c eq
        by (subst sort_Find_loop.simps, subst (2) sort_Find_loop.simps) (simp add: h_def Let_def)
    next
      case c: False
      have "sort_Find_loop cmp i h = sort_Find_loop cmp' i h"
        using "1.IH"(2)[OF True h_def c _ "1.prems"(2)] hb "1.prems"(1) by simp
      then show ?thesis
        using True c eq
        by (subst sort_Find_loop.simps, subst (2) sort_Find_loop.simps) (simp add: h_def Let_def)
    qed
  qed
qed

lemma sort_Find_in_range:
  "(\<forall>h<n. cmp h = cmp' h) \<Longrightarrow> sort_Find n cmp = sort_Find n cmp'"
  using sort_Find_loop_in_range[of n n cmp cmp' 0]
  by (auto simp: sort_Find_def Let_def)

lemma index_sorted_nth:
  "index_sorted c idx \<Longrightarrow> h \<le> k \<Longrightarrow> k < length idx \<Longrightarrow> total_order c \<Longrightarrow> c (idx ! h) (idx ! k) \<le> 0"
  unfolding index_sorted_def
  by (cases "h = k") (auto simp: total_order_refl sorted_wrt_iff_nth_less)

lemma index_mono:
  assumes "total_order c" "index_sorted c idx"
  shows "\<forall>h k. h \<le> k \<and> k < length idx \<and> c name (idx ! k) > 0 \<longrightarrow> c name (idx ! h) > 0"
proof (intro allI impI)
  fix h k assume a: "h \<le> k \<and> k < length idx \<and> c name (idx ! k) > 0"
  have "c (idx ! h) (idx ! k) \<le> 0" using index_sorted_nth assms a by blast
  then show "c name (idx ! h) > 0"
    using total_order_trans[OF assms(1), of name "idx ! h" "idx ! k"] a by force
qed

lemma sort_Find_index:
  assumes "total_order c" "index_sorted c idx"
    and "sort_Find (length idx) (\<lambda>i. c name (idx ! i)) = (i, ok)"
  shows "i \<le> length idx"
    and "\<forall>h<i. c name (idx ! h) > 0"
    and "\<forall>h. i \<le> h \<and> h < length idx \<longrightarrow> c name (idx ! h) \<le> 0"
    and "ok \<longleftrightarrow> (i < length idx \<and> idx ! i = name)"
proof -
  let ?cmp = "\<lambda>i. c name (idx ! i)"
  have i: "i = sort_Find_loop ?cmp 0 (length idx)" and ok: "ok = (i < length idx \<and> ?cmp i = 0)"
    using assms(3) by (auto simp: sort_Find_def Let_def)
  show "i \<le> length idx" using sort_Find_loop_bounds[of 0 "length idx" ?cmp] i by simp
  have sp: "(\<forall>h < i. ?cmp h > 0) \<and> (\<forall>h. i \<le> h \<and> h < length idx \<longrightarrow> ?cmp h \<le> 0)"
    unfolding i
    by (rule sort_Find_loop_split[OF index_mono[OF assms(1,2)]]) simp_all
  then show "\<forall>h<i. c name (idx ! h) > 0" and "\<forall>h. i \<le> h \<and> h < length idx \<longrightarrow> c name (idx ! h) \<le> 0"
    by blast+
  show "ok \<longleftrightarrow> (i < length idx \<and> idx ! i = name)"
    using ok total_order_eq[OF assms(1), of name "idx ! i"] total_order_refl[OF assms(1), of name]
    by auto
qed

lemma sort_Find_present:
  assumes "total_order c" "index_sorted c idx"
    and "sort_Find (length idx) (\<lambda>i. c name (idx ! i)) = (i, ok)"
  shows "ok \<longleftrightarrow> name \<in> set idx"
proof
  assume ok
  then show "name \<in> set idx" using sort_Find_index(4)[OF assms] by auto
next
  assume "name \<in> set idx"
  then obtain k where k: "k < length idx" "idx ! k = name" by (auto simp: in_set_conv_nth)
  have "c name (idx ! k) = 0" using k total_order_refl[OF assms(1)] by simp
  then have "\<not> k < i" using sort_Find_index(2)[OF assms] by force
  then have ik: "i \<le> k" by simp
  then have il: "i < length idx" using k by simp
  have 1: "c name (idx ! i) \<le> 0" using sort_Find_index(3)[OF assms] il by simp
  have "c (idx ! i) (idx ! k) \<le> 0" using index_sorted_nth[OF assms(2) ik k(1) assms(1)] .
  then have "\<not> c name (idx ! i) < 0" using total_order_flip[OF assms(1), of "idx ! i" name] k by simp
  with 1 have "c name (idx ! i) = 0" by simp
  then show ok using sort_Find_index(4)[OF assms] il total_order_eq[OF assms(1)] by blast
qed

subsection \<open>Filtering, sorting, insertion and removal\<close>

lemma Load_loop_filter: "Load_loop e names idx = idx @ filter (\<lambda>name. filepath_Ext name = e) names"
  by (induction names arbitrary: idx) auto

lemma set_insert_less: "set (insert_less lt x ys) = insert x (set ys)"
  by (induction ys) auto

lemma set_sort_Slice: "set (sort_Slice lt xs) = set xs"
  by (induction xs) (auto simp: set_insert_less)

lemma length_insert_less: "length (insert_less lt x ys) = Suc (length ys)"
  by (induction ys) auto

lemma length_sort_Slice: "length (sort_Slice lt xs) = length xs"
  by (induction xs) (auto simp: length_insert_less)

lemma index_sorted_insert_less:
  assumes "total_order c"
  shows "index_sorted c ys \<Longrightarrow> index_sorted c (insert_less (\<lambda>a b. c a b < 0) x ys)"
proof (induction ys)
  case Nil
  then show ?case by (simp add: index_sorted_def)
next
  case (Cons y ys)
  show ?case
  proof (cases "c x y < 0")
    case True
    have "\<forall>z\<in>set ys. c x z \<le> 0"
      using Cons.prems True total_order_trans[OF assms, of x y]
      by (auto simp: index_sorted_def)
    with True Cons.prems show ?thesis by (auto simp: index_sorted_def)
  next
    case False
    then have "c y x \<le> 0" using total_order_flip[OF assms, of y x] by simp
    moreover have "index_sorted c (insert_less (\<lambda>a b. c a b < 0) x ys)"
      using Cons by (simp add: index_sorted_def)
    ultimately show ?thesis using False Cons.prems
      by (auto simp: index_sorted_def set_insert_less)
  qed
qed

lemma index_sorted_sort_Slice:
  "total_order c \<Longrightarrow> index_sorted c (sort_Slice (\<lambda>a b. c a b < 0) xs)"
proof (induction xs)
  case Nil
  show ?case by (simp add: index_sorted_def)
next
  case (Cons x xs)
  then show ?case by (simp add: index_sorted_insert_less)
qed

lemma index_sorted_insert_at:
  assumes "total_order c" "index_sorted c idx" "i \<le> length idx"
    and low: "\<forall>h<i. c name (idx ! h) > 0"
    and high: "\<forall>h. i \<le> h \<and> h < length idx \<longrightarrow> c name (idx ! h) \<le> 0"
  shows "index_sorted c (take i idx @ ([name] @ drop i idx))"
proof -
  have 1: "\<forall>x\<in>set (take i idx). c x name \<le> 0"
  proof
    fix x assume "x \<in> set (take i idx)"
    then obtain h where "h < i" "h < length idx" "x = idx ! h"
      by (auto simp: in_set_conv_nth)
    then have "c name x > 0" using low by simp
    then show "c x name \<le> 0" using total_order_flip[OF assms(1), of name x] by simp
  qed
  have 2: "\<forall>y\<in>set (drop i idx). c name y \<le> 0"
  proof
    fix y assume "y \<in> set (drop i idx)"
    then obtain h where "h < length idx - i" "y = idx ! (i + h)"
      by (auto simp: in_set_conv_nth)
    then show "c name y \<le> 0" using high by simp
  qed
  have "sorted_wrt (\<lambda>a b. c a b \<le> 0) (take i idx @ drop i idx)"
    using assms(2) by (simp add: index_sorted_def)
  then have 3: "sorted_wrt (\<lambda>a b. c a b \<le> 0) (take i idx)"
      "sorted_wrt (\<lambda>a b. c a b \<le> 0) (drop i idx)"
      "\<forall>x\<in>set (take i idx). \<forall>y\<in>set (drop i idx). c x y \<le> 0"
    unfolding sorted_wrt_append by blast+
  show ?thesis
    unfolding index_sorted_def
    using 1 2 3 by (simp add: sorted_wrt_append)
qed

lemma index_sorted_remove_at:
  assumes "index_sorted c idx"
  shows "index_sorted c (take i idx @ drop (i + 1) idx)"
proof -
  let ?R = "\<lambda>a b. c a b \<le> 0"
  have "sorted_wrt ?R (take i idx @ drop i idx)"
    using assms by (simp add: index_sorted_def)
  then have 3: "sorted_wrt ?R (take i idx)" "sorted_wrt ?R (drop i idx)"
      "\<forall>x\<in>set (take i idx). \<forall>y\<in>set (drop i idx). c x y \<le> 0"
    unfolding sorted_wrt_append by blast+
  have d: "drop (i + 1) idx = drop 1 (drop i idx)" by simp
  have 4: "sorted_wrt ?R (drop (i + 1) idx)"
    unfolding d using 3(2) by (rule sorted_wrt_drop)
  have 5: "set (drop (i + 1) idx) \<subseteq> set (drop i idx)"
    unfolding d by (rule set_drop_subset)
  show ?thesis
    unfolding index_sorted_def sorted_wrt_append
    using 3 4 5 by blast
qed

subsection \<open>The default comparator is a total order\<close>

lemma strings_Compare_refl: "strings_Compare a a = 0"
  by (induction a) auto

lemma strings_Compare_eq: "strings_Compare a b = 0 \<Longrightarrow> a = b"
proof (induction a b rule: strings_Compare.induct)
  case (4 x xs y ys)
  have "\<not> (of_char x :: nat) < of_char y" "\<not> (of_char y :: nat) < of_char x"
    using "4.prems" by (auto split: if_splits)
  then have "(of_char x :: nat) = of_char y" by linarith
  then have "x = y" by simp
  moreover have "xs = ys" using 4 by (auto split: if_splits)
  ultimately show ?case by simp
qed simp_all


lemma strings_Compare_flip: "(0 < strings_Compare a b) = (strings_Compare b a < 0)"
proof (induction a b rule: strings_Compare.induct)
  case (4 x xs y ys)
  consider "(of_char x :: nat) < of_char y" | "(of_char y :: nat) < of_char x"
    | "\<not> (of_char x :: nat) < of_char y" "\<not> (of_char y :: nat) < of_char x"
    by blast
  then show ?case
  proof cases
    case 1
    then have "\<not> (of_char y :: nat) < of_char x" by simp
    with 1 show ?thesis by simp
  next
    case 2
    then have "\<not> (of_char x :: nat) < of_char y" by simp
    with 2 show ?thesis by simp
  next
    case 3
    then show ?thesis using "4.IH" by simp
  qed
qed simp_all

lemma strings_Compare_trans:
  "strings_Compare a b \<le> 0 \<Longrightarrow> strings_Compare b d \<le> 0 \<Longrightarrow> strings_Compare a d \<le> 0"
proof (induction a b arbitrary: d rule: strings_Compare.induct)
  case 1
  then show ?case by simp
next
  case (2 y ys)
  then show ?case by (cases d) simp_all
next
  case (3 x xs)
  then show ?case by simp
next
  case (4 x xs y ys)
  show ?case
  proof (cases d)
    case Nil
    with "4.prems" show ?thesis by simp
  next
    case (Cons z zs)
    have xy: "\<not> (of_char y :: nat) < of_char x"
      using "4.prems"(1) by (simp split: if_splits)
    have yz: "\<not> (of_char z :: nat) < of_char y"
      using "4.prems"(2) Cons by (simp split: if_splits)
    show ?thesis
    proof (cases "(of_char x :: nat) < of_char z")
      case True
      then show ?thesis using Cons by simp
    next
      case False
      with xy yz have e: "(of_char x :: nat) = of_char y" "(of_char y :: nat) = of_char z"
        by linarith+
      have 1: "strings_Compare xs ys \<le> 0" using "4.prems"(1) e by (simp split: if_splits)
      have 2: "strings_Compare ys zs \<le> 0" using "4.prems"(2) e Cons by (simp split: if_splits)
      have "strings_Compare xs zs \<le> 0"
        using "4.IH"[OF _ _ 1 2] xy e by simp
      then show ?thesis using Cons e by simp
    qed
  qed
qed

lemma total_order_strings_Compare: "total_order strings_Compare"
  unfolding total_order_def
  using strings_Compare_refl strings_Compare_eq strings_Compare_flip strings_Compare_trans
  by blast

subsection \<open>The operations, case by case\<close>

lemma Load_result:
  "Load s fs = (None, s\<lparr>index := sort_Slice (\<lambda>a b. comparator s a b < 0)
       (filter (\<lambda>name. filepath_Ext name = ext s) (files_MustReadDirnames fs (dir s)))\<rparr>)"
  by (simp add: Load_def Let_def Load_loop_filter)

lemma Load_sorted:
  "total_order (comparator s) \<Longrightarrow> index_sorted (comparator s) (index (snd (Load s fs)))"
  by (simp add: Load_result index_sorted_sort_Slice)

lemma Load_config:
  "comparator (snd (Load s fs)) = comparator s"
  by (simp add: Load_result)

lemma Put_cases:
  obtains (failed) e fs' where "Put s fs key v = (Some e, s, fs')"
  | (present) fs' where "Put s fs key v = (None, s, fs')"
      "snd (sort_Find (length (index s)) (\<lambda>i. comparator s (filename s key) (index s ! i)))"
  | (inserted) fs' i where "Put s fs key v =
        (None, s\<lparr>index := take i (index s) @ ([filename s key] @ drop i (index s))\<rparr>, fs')"
      "sort_Find (length (index s)) (\<lambda>i. comparator s (filename s key) (index s ! i)) = (i, False)"
proof -
  obtain i ok where f: "sort_Find (length (index s)) (\<lambda>i. comparator s (filename s key) (index s ! i)) = (i, ok)"
    by (cases "sort_Find (length (index s)) (\<lambda>i. comparator s (filename s key) (index s ! i))")
  obtain b err where e: "encoder s v = (b, err)" by (cases "encoder s v")
  show thesis
  proof (cases "files_OpenFileWriter fs (path_of s key)")
    case (Inl e)
    then have "Put s fs key v = (Some e, s, fs)"
      by (simp add: Put_def path_of_def filename_def Let_def)
    then show thesis by (rule failed)
  next
    case (Inr fs1)
    let ?fs2 = "file_Write fs1 (path_of s key) b"
    let ?err = "if file_Close ?fs2 (path_of s key) \<noteq> None \<and> err = None
                then file_Close ?fs2 (path_of s key) else err"
    show thesis
    proof (cases ?err)
      case (Some e')
      then have "Put s fs key v = (Some e', s, ?fs2)"
        using Inr e by (simp add: Put_def path_of_def filename_def Let_def split: if_splits)
      then show thesis by (rule failed)
    next
      case None
      show thesis
      proof (cases ok)
        case True
        have "Put s fs key v = (None, s, ?fs2)"
          using Inr e None f True
          by (simp add: Put_def path_of_def filename_def Let_def split: if_splits)
        then show thesis using f True by (intro present) simp_all
      next
        case False
        have "Put s fs key v =
          (None, s\<lparr>index := take i (index s) @ ([filename s key] @ drop i (index s))\<rparr>, ?fs2)"
          using Inr e None f False
          by (simp add: Put_def path_of_def filename_def Let_def split: if_splits)
        then show thesis using f False by (intro inserted) simp_all
      qed
    qed
  qed
qed

lemma Put_sorted:
  assumes "total_order (comparator s)" "index_sorted (comparator s) (index s)"
  shows "index_sorted (comparator s) (index (fst (snd (Put s fs key v))))"
proof (cases rule: Put_cases[of s fs key v])
  case (failed e fs')
  then show ?thesis using assms by simp
next
  case (present fs')
  then show ?thesis using assms by simp
next
  case (inserted fs' i)
  note f = sort_Find_index[OF assms inserted(2)]
  show ?thesis
    using inserted(1) index_sorted_insert_at[OF assms f(1) f(2) f(3)] by simp
qed

lemma Put_config:
  "comparator (fst (snd (Put s fs key v))) = comparator s"
  by (cases rule: Put_cases[of s fs key v]) simp_all


lemma Put_success:
  assumes "fst (Put s fs key v) = None"
  obtains fs1 b where "files_OpenFileWriter fs (path_of s key) = Inr fs1"
    and "encoder s v = (b, None)"
    and "file_Close (file_Write fs1 (path_of s key) b) (path_of s key) = None"
    and "snd (snd (Put s fs key v)) = file_Write fs1 (path_of s key) b"
proof -
  obtain b err where e: "encoder s v = (b, err)" by (cases "encoder s v")
  show thesis
  proof (cases "files_OpenFileWriter fs (path_of s key)")
    case (Inl e)
    then have "Put s fs key v = (Some e, s, fs)"
      by (simp add: Put_def path_of_def filename_def Let_def)
    with assms show thesis by simp
  next
    case (Inr fs1)
    let ?fs2 = "file_Write fs1 (path_of s key) b"
    have c: "file_Close ?fs2 (path_of s key) = None \<and> err = None"
      using assms Inr e
      by (auto simp: Put_def path_of_def filename_def Let_def split: if_splits prod.splits)
    have "snd (snd (Put s fs key v)) = ?fs2"
      using Inr e c
      by (auto simp: Put_def path_of_def filename_def Let_def split: if_splits prod.splits)
    then show thesis using that[OF Inr] e c by simp
  qed
qed

text \<open>
  After a successful \<^verbatim>\<open>files.Remove\<close> nothing is left at the path, so the test
  \<^verbatim>\<open>files.MustIsEmptyDir\<close> that follows in \<^verbatim>\<open>Delete\<close> is false and the filesystem \<^verbatim>\<open>Delete\<close>
  returns is the one \<^verbatim>\<open>files.Remove\<close> left.
\<close>

lemma files_Remove_gone:
  assumes "files_Remove fs p = Inr fs1"
  shows "map_of (nodes fs1) p = None" and "fault fs1 = fault fs"
    and "nodes fs1 = AList.delete p (nodes fs)" and "map_of (nodes fs) p \<noteq> None"
  using assms
  by (auto simp: files_Remove_def delete_conv' split: option.splits if_splits)

lemma Delete_cases:
  obtains (absent) i where "Delete s fs key = (None, s, fs)"
      "sort_Find (length (index s)) (\<lambda>i. comparator s (filename s key) (index s ! i)) = (i, False)"
  | (failed) i e where "Delete s fs key = (Some e, s, fs)"
      "sort_Find (length (index s)) (\<lambda>i. comparator s (filename s key) (index s ! i)) = (i, True)"
      "files_Remove fs (path_of s key) = Inl e"
  | (removed) i fs1 where
      "Delete s fs key = (None, s\<lparr>index := take i (index s) @ drop (i + 1) (index s)\<rparr>, fs1)"
      "sort_Find (length (index s)) (\<lambda>i. comparator s (filename s key) (index s ! i)) = (i, True)"
      "files_Remove fs (path_of s key) = Inr fs1"
proof -
  obtain i ok where f: "sort_Find (length (index s)) (\<lambda>i. comparator s (filename s key) (index s ! i)) = (i, ok)"
    by (cases "sort_Find (length (index s)) (\<lambda>i. comparator s (filename s key) (index s ! i))")
  show thesis
  proof (cases ok)
    case False
    then have "Delete s fs key = (None, s, fs)"
      using f by (simp add: Delete_def path_of_def filename_def Let_def)
    then show thesis using f False by (intro absent) simp_all
  next
    case True
    show thesis
    proof (cases "files_Remove fs (path_of s key)")
      case (Inl e)
      then have "Delete s fs key = (Some e, s, fs)"
        using f True by (simp add: Delete_def path_of_def filename_def Let_def)
      then show thesis using f True Inl by (intro failed) simp_all
    next
      case (Inr fs1)
      have "\<not> files_MustIsEmptyDir fs1 (path_of s key)"
        using files_Remove_gone(1)[OF Inr] by (simp add: files_MustIsEmptyDir_def)
      then have "Delete s fs key =
          (None, s\<lparr>index := take i (index s) @ drop (i + 1) (index s)\<rparr>, fs1)"
        using f True Inr by (simp add: Delete_def path_of_def filename_def Let_def)
      then show thesis using f True Inr by (intro removed[of i fs1]) simp_all
    qed
  qed
qed

lemma Delete_sorted:
  assumes "index_sorted (comparator s) (index s)"
  shows "index_sorted (comparator s) (index (fst (snd (Delete s fs key))))"
proof (cases rule: Delete_cases[of s fs key])
  case (removed i fs1)
  then show ?thesis using index_sorted_remove_at[OF assms, of i] by simp
qed (simp_all add: assms)

lemma Delete_config:
  "comparator (fst (snd (Delete s fs key))) = comparator s"
  by (cases rule: Delete_cases[of s fs key]) simp_all

lemma exec_invariant:
  assumes "total_order (comparator s)" "index_sorted (comparator s) (index s)"
  shows "comparator (fst (exec (s, fs) c)) = comparator s \<and>
         index_sorted (comparator s) (index (fst (exec (s, fs) c)))"
proof (cases c)
  case Load_call
  then show ?thesis using assms Load_sorted[of s fs] Load_config[of s fs] by simp
next
  case (Put_call key v)
  then show ?thesis using Put_sorted[OF assms, of fs key v] Put_config[of s fs key v] by simp
next
  case (Delete_call key)
  then show ?thesis using Delete_sorted[OF assms(2), of fs key] Delete_config[of s fs key] by simp
qed

lemma run_invariant:
  "total_order (comparator s) \<Longrightarrow> index_sorted (comparator s) (index s) \<Longrightarrow>
   comparator (fst (run s fs calls)) = comparator s \<and>
   index_sorted (comparator s) (index (fst (run s fs calls)))"
proof (induction calls arbitrary: s fs)
  case Nil
  then show ?case by (simp add: run_def)
next
  case (Cons c calls)
  obtain s1 fs1 where e: "exec (s, fs) c = (s1, fs1)" by (cases "exec (s, fs) c")
  have i: "comparator s1 = comparator s" "index_sorted (comparator s) (index s1)"
    using exec_invariant[OF Cons.prems, of fs c] e by simp_all
  have "run s fs (c # calls) = run s1 fs1 calls" by (simp add: run_def e)
  then show ?case using Cons.IH[of s1 fs1] Cons.prems i by simp
qed

lemma New_index: "index (New T d opt) = []"
  by (simp add: New_def Let_def split: option.splits)

subsection \<open>The loop of List\<close>

lemma List_loop_beyond:
  "int (length (index s)) \<le> i \<Longrightarrow>
   List_loop s fs i cap vals = (if i < cap then Panic else Return (Inr vals))"
  by (subst List_loop.simps) simp

lemma List_offset_beyond_total:
  "int (length (index s)) \<le> offset \<Longrightarrow>
   List_op s fs offset limit =
     (let cap = (if limit < 0 then int (length (index s)) else limit) in
      if cap \<le> maxcap s \<and> cap \<le> offset
      then Return (\<lparr>Values = [], Offset = offset, Limit = limit,
                    Total = int (length (index s))\<rparr>, None)
      else Panic)"
  by (auto simp: List_op_def List_loop_beyond Let_def)

lemma List_loop_values:
  "List_loop s fs i cap vals = Return (Inr out) \<Longrightarrow>
   out = vals @ List.map_filter (decode_at s fs) [i..cap - 1]"
proof (induction s fs i cap vals rule: List_loop.induct)
  case (1 s fs i cap vals)
  show ?case
  proof (cases "i < cap")
    case False
    then have "[i..cap - 1] = []" by simp
    moreover have "out = vals" using "1.prems" False by (subst (asm) List_loop.simps) simp
    ultimately show ?thesis by simp
  next
    case True
    then have up: "[i..cap - 1] = i # [i + 1..cap - 1]" by (simp add: upto_rec1)
    let ?p = "filepath_Join (dir s) (index s ! nat i)"
    have inr: "\<not> (i < 0 \<or> int (length (index s)) \<le> i)"
      using "1.prems" True by (subst (asm) List_loop.simps) (simp split: if_splits)
    obtain f where f: "files_Open fs ?p = Inr f"
      using "1.prems" True inr
      by (subst (asm) List_loop.simps) (simp add: Let_def split: sum.splits)
    obtain isDir where st: "file_Stat fs ?p f = Inr isDir"
      using "1.prems" True inr f
      by (subst (asm) List_loop.simps) (simp add: Let_def split: sum.splits)
    have isDir: "isDir = (f = Dir)" using st by (simp add: file_Stat_def split: option.splits)
    show ?thesis
    proof (cases isDir)
      case True
      have next': "List_loop s fs (i + 1) cap vals = Return (Inr out)"
        using "1.prems" \<open>i < cap\<close> inr f st True
        by (subst (asm) List_loop.simps) (simp add: Let_def)
      have "decode_at s fs i = None"
        using f True isDir by (simp add: decode_at_def)
      then show ?thesis
        using "1.IH"(1)[OF \<open>i < cap\<close> inr refl f st True next'] up
        by simp
    next
      case False
      then obtain b where b: "f = File b" using isDir by (cases f) simp_all
      obtain v err where d: "decoder s b = (v, err)" by (cases "decoder s b")
      have err: "err = None"
        using "1.prems" \<open>i < cap\<close> inr f st False b d
        by (subst (asm) List_loop.simps) (simp add: Let_def split: option.splits)
      have next': "List_loop s fs (i + 1) cap (vals @ [v]) = Return (Inr out)"
        using "1.prems" \<open>i < cap\<close> inr f st False b d err
        by (subst (asm) List_loop.simps) (simp add: Let_def)
      have "decode_at s fs i = Some v"
        using f b d by (simp add: decode_at_def)
      moreover have dd: "(v, err) = decoder s (contents f)" using b d by simp
      have "out = (vals @ [v]) @ List.map_filter (decode_at s fs) [i + 1..cap - 1]"
        by (rule "1.IH"(2)[OF \<open>i < cap\<close> inr refl f st False dd err next'])
      ultimately show ?thesis using up by simp
    qed
  qed
qed

text \<open>
  A call whose positions all lie in the Index and can all be read returns its page; a
  call that returns a page returns these values; and a call with \<open>offset < limit\<close> and
  \<open>limit\<close> beyond the Index length returns no page.
\<close>

lemma List_loop_returns:
  "0 \<le> i \<Longrightarrow> cap \<le> int (length (index s)) \<Longrightarrow> (\<forall>j\<in>set [i..cap - 1]. entry_ok s fs j) \<Longrightarrow>
   List_loop s fs i cap vals = Return (Inr (vals @ List.map_filter (decode_at s fs) [i..cap - 1]))"
proof (induction s fs i cap vals rule: List_loop.induct)
  case (1 s fs i cap vals)
  show ?case
  proof (cases "i < cap")
    case False
    then have "[i..cap - 1] = []" by simp
    then show ?thesis using False by (subst List_loop.simps) simp
  next
    case True
    then have up: "[i..cap - 1] = i # [i + 1..cap - 1]" by (simp add: upto_rec1)
    let ?p = "filepath_Join (dir s) (index s ! nat i)"
    have inr: "\<not> (i < 0 \<or> int (length (index s)) \<le> i)"
      using "1.prems" True by simp
    have ok: "entry_ok s fs i" using "1.prems"(3) up by simp
    have rest: "\<forall>j\<in>set [i + 1..cap - 1]. entry_ok s fs j" using "1.prems"(3) up by simp
    obtain f where f: "files_Open fs ?p = Inr f"
      using ok by (auto simp: entry_ok_def Let_def split: sum.splits)
    obtain isDir where st: "file_Stat fs ?p f = Inr isDir"
      using ok f by (auto simp: entry_ok_def Let_def split: sum.splits)
    have isDir: "isDir = (f = Dir)" using st by (simp add: file_Stat_def split: option.splits)
    show ?thesis
    proof (cases isDir)
      case True
      have "decode_at s fs i = None" using f True isDir by (simp add: decode_at_def)
      moreover have "List_loop s fs i cap vals = List_loop s fs (i + 1) cap vals"
        using \<open>i < cap\<close> inr f st True by (subst List_loop.simps) (simp add: Let_def)
      moreover have "List_loop s fs (i + 1) cap vals =
          Return (Inr (vals @ List.map_filter (decode_at s fs) [i + 1..cap - 1]))"
        using "1.IH"(1)[OF \<open>i < cap\<close> inr refl f st True _ "1.prems"(2) rest] "1.prems"(1) by simp
      ultimately show ?thesis using up by simp
    next
      case False
      then obtain b where b: "f = File b" using isDir by (cases f) simp_all
      obtain v err where d: "decoder s b = (v, err)" by (cases "decoder s b")
      have err: "err = None" using ok f st False b d by (simp add: entry_ok_def Let_def)
      have dd: "(v, err) = decoder s (contents f)" using b d by simp
      have "decode_at s fs i = Some v" using f b d by (simp add: decode_at_def)
      moreover have "List_loop s fs i cap vals = List_loop s fs (i + 1) cap (vals @ [v])"
        using \<open>i < cap\<close> inr f st False b d err by (subst List_loop.simps) (simp add: Let_def)
      moreover have "List_loop s fs (i + 1) cap (vals @ [v]) =
          Return (Inr ((vals @ [v]) @ List.map_filter (decode_at s fs) [i + 1..cap - 1]))"
        using "1.IH"(2)[OF \<open>i < cap\<close> inr refl f st False dd err _ "1.prems"(2) rest] "1.prems"(1)
        by simp
      ultimately show ?thesis using up by simp
    qed
  qed
qed

lemma List_returned_page:
  assumes "List_op s fs offset limit = Return (page, None)"
  shows "(0 \<le> limit \<longrightarrow> Values page = List.map_filter (decode_at s fs) [offset..limit - 1]) \<and>
         (limit < 0 \<longrightarrow>
            Values page = List.map_filter (decode_at s fs) [offset..int (length (index s)) - 1]) \<and>
         Total page = int (length (index s)) \<and> Offset page = offset \<and> Limit page = limit"
proof -
  let ?cap = "if limit < 0 then int (length (index s)) else limit"
  obtain vals where l: "List_loop s fs offset ?cap [] = Return (Inr vals)"
    and p: "page = \<lparr>Values = vals, Offset = offset, Limit = limit,
                     Total = int (length (index s))\<rparr>"
    using assms by (auto simp: List_op_def Let_def split: outcome.splits sum.splits if_splits)
  have "vals = List.map_filter (decode_at s fs) [offset..?cap - 1]"
    using List_loop_values[OF l] by simp
  then show ?thesis using p by simp
qed

lemma List_in_range_returns:
  assumes "0 \<le> offset" and "cap = (if limit < 0 then int (length (index s)) else limit)"
    and "cap \<le> int (length (index s))" and "cap \<le> maxcap s"
    and "\<forall>j\<in>set [offset..cap - 1]. entry_ok s fs j"
  shows "List_op s fs offset limit =
     Return (\<lparr>Values = List.map_filter (decode_at s fs) [offset..cap - 1], Offset = offset,
              Limit = limit, Total = int (length (index s))\<rparr>, None)"
  using List_loop_returns[OF assms(1,3,5), of "[]"] assms(2,4)
  by (simp add: List_op_def Let_def)

lemma List_loop_past_end:
  "i < cap \<Longrightarrow> int (length (index s)) < cap \<Longrightarrow> List_loop s fs i cap vals \<noteq> Return (Inr out)"
proof (induction s fs i cap vals rule: List_loop.induct)
  case (1 s fs i cap vals)
  show ?case
  proof (cases "i < 0 \<or> int (length (index s)) \<le> i")
    case True
    then show ?thesis using "1.prems"(1) by (subst List_loop.simps) simp
  next
    case False
    then have nxt: "i + 1 < cap" using "1.prems"(2) by simp
    let ?p = "filepath_Join (dir s) (index s ! nat i)"
    show ?thesis
    proof (cases "files_Open fs ?p")
      case (Inl e)
      then show ?thesis using "1.prems"(1) False by (subst List_loop.simps) (simp add: Let_def)
    next
      case (Inr f)
      show ?thesis
      proof (cases "file_Stat fs ?p f")
        case (Inl e)
        then show ?thesis
          using "1.prems"(1) False Inr by (subst List_loop.simps) (simp add: Let_def)
      next
        case st: (Inr isDir)
        show ?thesis
        proof (cases isDir)
          case True
          have "List_loop s fs (i + 1) cap vals \<noteq> Return (Inr out)"
            by (rule "1.IH"(1)[OF "1.prems"(1) False refl Inr st True nxt "1.prems"(2)])
          then show ?thesis
            using "1.prems"(1) False Inr st True by (subst List_loop.simps) (simp add: Let_def)
        next
          case dir: False
          obtain v err where d: "(v, err) = decoder s (contents f)"
            by (cases "decoder s (contents f)") simp
          show ?thesis
          proof (cases err)
            case (Some e)
            then show ?thesis
              using "1.prems"(1) False Inr st dir d[symmetric]
              by (subst List_loop.simps) (simp add: Let_def)
          next
            case None
            have "List_loop s fs (i + 1) cap (vals @ [v]) \<noteq> Return (Inr out)"
              by (rule "1.IH"(2)[OF "1.prems"(1) False refl Inr st dir d None nxt "1.prems"(2)])
            then show ?thesis
              using "1.prems"(1) False Inr st dir d[symmetric] None
              by (subst List_loop.simps) (simp add: Let_def)
          qed
        qed
      qed
    qed
  qed
qed

lemma List_past_end:
  assumes "0 \<le> limit" "int (length (index s)) < limit" "offset < limit"
  shows "List_op s fs offset limit \<noteq> Return (page, None)"
proof
  assume r: "List_op s fs offset limit = Return (page, None)"
  then obtain vals where l: "List_loop s fs offset limit [] = Return (Inr vals)"
    using assms(1) by (auto simp: List_op_def Let_def split: outcome.splits sum.splits if_splits)
  then show False using List_loop_past_end[OF assms(3,2)] by blast
qed

lemma Load_index_set:
  "set (index (snd (Load s fs))) =
     {name \<in> set (files_MustReadDirnames fs (dir s)). filepath_Ext name = ext s}"
  by (simp add: Load_result set_sort_Slice)

subsection \<open>Writing a file and reading it back\<close>

lemma Put_store: "\<exists>idx. fst (snd (Put s fs key v)) = s\<lparr>index := idx\<rparr>"
proof (cases rule: Put_cases[of s fs key v])
  case (failed e fs')
  then have "fst (snd (Put s fs key v)) = s\<lparr>index := index s\<rparr>" by simp
  then show ?thesis ..
next
  case (present fs')
  then have "fst (snd (Put s fs key v)) = s\<lparr>index := index s\<rparr>" by simp
  then show ?thesis ..
next
  case (inserted fs' i)
  then show ?thesis by auto
qed

lemma Delete_store: "\<exists>idx. fst (snd (Delete s fs key)) = s\<lparr>index := idx\<rparr>"
proof (cases rule: Delete_cases[of s fs key])
  case (absent i)
  then have "fst (snd (Delete s fs key)) = s\<lparr>index := index s\<rparr>" by simp
  then show ?thesis ..
next
  case (failed i e)
  then have "fst (snd (Delete s fs key)) = s\<lparr>index := index s\<rparr>" by simp
  then show ?thesis ..
next
  case (removed i fs1)
  then show ?thesis by auto
qed

lemma filename_index_update [simp]: "filename (s\<lparr>index := idx\<rparr>) key = filename s key"
  by (simp add: filename_def)

lemma path_of_index_update [simp]: "path_of (s\<lparr>index := idx\<rparr>) key = path_of s key"
  by (simp add: path_of_def)

lemma sort_Find_found_mem:
  assumes "total_order c" "sort_Find (length idx) (\<lambda>i. c name (idx ! i)) = (i, True)"
  shows "i < length idx" and "idx ! i = name" and "name \<in> set idx"
proof -
  have a: "i < length idx" "c name (idx ! i) = 0"
    using assms(2) by (auto simp: sort_Find_def Let_def)
  show "i < length idx" by (rule a(1))
  show "idx ! i = name" using total_order_eq[OF assms(1) a(2)] by simp
  then show "name \<in> set idx" using a(1) by auto
qed

lemma Put_index_member:
  assumes "total_order (comparator s)" "fst (Put s fs key v) = None"
  shows "filename s key \<in> set (index (fst (snd (Put s fs key v))))"
proof (cases rule: Put_cases[of s fs key v])
  case (failed e fs')
  with assms show ?thesis by simp
next
  case (present fs')
  obtain i where "sort_Find (length (index s)) (\<lambda>i. comparator s (filename s key) (index s ! i)) = (i, True)"
    using present(2) by (cases "sort_Find (length (index s)) (\<lambda>i. comparator s (filename s key) (index s ! i))") simp
  from sort_Find_found_mem(3)[OF assms(1) this] present(1) show ?thesis by simp
next
  case (inserted fs' i)
  then show ?thesis by simp
qed

lemma written_file_read:
  assumes "files_OpenFileWriter fs p = Inr fs1"
    and "fault fs FsOpenRead p = None"
  shows "files_OpenFileReader (file_Write fs1 p b) p = Inr (File b)"
proof -
  have "fault fs1 = fault fs"
    using assms(1) by (auto simp: files_OpenFileWriter_def split: option.splits node.splits)
  then show ?thesis
    by (simp add: files_OpenFileReader_def file_Write_def assms(2) update_conv')
qed

lemma written_fault:
  assumes "files_OpenFileWriter fs p = Inr fs1"
  shows "fault (file_Write fs1 p b) = fault fs"
  using assms by (auto simp: files_OpenFileWriter_def file_Write_def split: option.splits node.splits)

lemma Get_present:
  assumes "total_order (comparator s)" "index_sorted (comparator s) (index s)"
    and "filename s key \<in> set (index s)"
    and "files_OpenFileReader fs (path_of s key) = Inr (File b)"
  shows "Get s fs key = decoder s b"
proof -
  obtain i ok where f: "sort_Find (length (index s)) (\<lambda>i. comparator s (filename s key) (index s ! i)) = (i, ok)"
    by (cases "sort_Find (length (index s)) (\<lambda>i. comparator s (filename s key) (index s ! i))")
  have ok using sort_Find_present[OF assms(1,2) f] assms(3) by simp
  then show ?thesis
    using f assms(4) by (simp add: Get_def Let_def filename_def path_of_def)
qed

lemma Put_then_Get:
  assumes "total_order (comparator s)" "index_sorted (comparator s) (index s)"
    and "codec_ok (encoder s) (decoder s)"
    and "Put s fs key v = (None, s', fs')"
    and "fault fs' FsOpenRead (path_of s key) = None"
  shows "Get s' fs' key = (v, None)"
proof -
  have ok: "fst (Put s fs key v) = None" using assms(4) by simp
  obtain fs1 b where w: "files_OpenFileWriter fs (path_of s key) = Inr fs1"
    and e: "encoder s v = (b, None)"
    and fs': "snd (snd (Put s fs key v)) = file_Write fs1 (path_of s key) b"
    using Put_success[OF ok] by blast
  obtain idx where s': "s' = s\<lparr>index := idx\<rparr>" using Put_store[of s fs key v] assms(4) by auto
  have fs'': "fs' = file_Write fs1 (path_of s key) b" using fs' assms(4) by simp
  have "fault fs FsOpenRead (path_of s key) = None"
    using assms(5) written_fault[OF w, of b] fs'' by simp
  then have r: "files_OpenFileReader fs' (path_of s' key) = Inr (File b)"
    using written_file_read[OF w, of b] fs'' s' by simp
  have srt: "index_sorted (comparator s') (index s')"
    using Put_sorted[OF assms(1,2), of fs key v] assms(4) s' by simp
  have mem: "filename s' key \<in> set (index s')"
    using Put_index_member[OF assms(1) ok] assms(4) s' by simp
  have "Get s' fs' key = decoder s' b"
    using Get_present[OF _ srt mem r] assms(1) s' by simp
  also have "\<dots> = (v, None)" using assms(3) e s' by (simp add: codec_ok_def)
  finally show ?thesis .
qed

subsection \<open>The configuration of a store does not change\<close>

lemma Put_fields:
  "comparator (fst (snd (Put s fs key v))) = comparator s"
  "encoder (fst (snd (Put s fs key v))) = encoder s"
  "decoder (fst (snd (Put s fs key v))) = decoder s"
  "ext (fst (snd (Put s fs key v))) = ext s"
  "dir (fst (snd (Put s fs key v))) = dir s"
  using Put_store[of s fs key v] by auto

lemma Delete_fields:
  "comparator (fst (snd (Delete s fs key))) = comparator s"
  "encoder (fst (snd (Delete s fs key))) = encoder s"
  "decoder (fst (snd (Delete s fs key))) = decoder s"
  "ext (fst (snd (Delete s fs key))) = ext s"
  "dir (fst (snd (Delete s fs key))) = dir s"
  using Delete_store[of s fs key] by auto

lemma New_default:
  "comparator (New T d None) = strings_Compare"
  "encoder (New T d None) = gob_Encode T"
  "decoder (New T d None) = gob_Decode T"
  "ext (New T d None) = ''.dat''"
  "dir (New T d None) = d"
  by (simp_all add: New_def)

lemma codec_ok_bytes: "codec_ok (gob_Encode bytes_T) (gob_Decode bytes_T)"
  by (simp add: codec_ok_def bytes_T_def)

lemma store_a_fields:
  "comparator store_a = strings_Compare"
  "encoder store_a = gob_Encode bytes_T"
  "decoder store_a = gob_Decode bytes_T"
  by (simp_all add: store_a_def Put_fields New_default)

subsection \<open>Delete, by presence of the filename\<close>

lemma remove1_first_at:
  "i < length xs \<Longrightarrow> xs ! i = x \<Longrightarrow> \<forall>h<i. xs ! h \<noteq> x \<Longrightarrow>
   take i xs @ drop (Suc i) xs = remove1 x xs"
proof (induction xs arbitrary: i)
  case Nil
  then show ?case by simp
next
  case (Cons y ys)
  show ?case
  proof (cases i)
    case 0
    with Cons.prems show ?thesis by simp
  next
    case (Suc j)
    have "y \<noteq> x" using Cons.prems(3) Suc by force
    moreover have "take j ys @ drop (Suc j) ys = remove1 x ys"
      using Cons.IH[of j] Cons.prems Suc by force
    ultimately show ?thesis using Suc by simp
  qed
qed

lemma Delete_present:
  assumes "total_order (comparator s)" "index_sorted (comparator s) (index s)"
    and "filename s key \<in> set (index s)"
  shows "files_Remove fs (path_of s key) = Inl e \<Longrightarrow> Delete s fs key = (Some e, s, fs)"
    and "files_Remove fs (path_of s key) = Inr fs1 \<Longrightarrow>
         fst (Delete s fs key) = None \<and>
         fst (snd (Delete s fs key)) = s\<lparr>index := remove1 (filename s key) (index s)\<rparr>"
proof -
  have notabsent: "sort_Find (length (index s)) (\<lambda>i. comparator s (filename s key) (index s ! i)) \<noteq> (i, False)" for i
    using sort_Find_present[OF assms(1,2), of "filename s key" i False] assms(3) by auto
  show "files_Remove fs (path_of s key) = Inl e \<Longrightarrow> Delete s fs key = (Some e, s, fs)"
  proof (cases rule: Delete_cases[of s fs key])
    case (absent i)
    then show ?thesis using notabsent by simp
  qed simp_all
  show "files_Remove fs (path_of s key) = Inr fs1 \<Longrightarrow>
         fst (Delete s fs key) = None \<and>
         fst (snd (Delete s fs key)) = s\<lparr>index := remove1 (filename s key) (index s)\<rparr>"
  proof (cases rule: Delete_cases[of s fs key])
    case (absent i)
    then show ?thesis using notabsent by simp
  next
    case (failed i e')
    assume "files_Remove fs (path_of s key) = Inr fs1"
    with failed show ?thesis by simp
  next
    case (removed i fs1')
    note fm = sort_Find_found_mem[OF assms(1) removed(2)]
    have "\<forall>h<i. index s ! h \<noteq> filename s key"
      using sort_Find_index(2)[OF assms(1,2) removed(2)] total_order_refl[OF assms(1), of "filename s key"]
      by force
    then have "take i (index s) @ drop (Suc i) (index s) = remove1 (filename s key) (index s)"
      using remove1_first_at[OF fm(1) fm(2)] by simp
    then show ?thesis using removed(1) by simp
  qed
qed

lemma Delete_absent:
  assumes "total_order (comparator s)" "filename s key \<notin> set (index s)"
  shows "Delete s fs key = (None, s, fs)"
proof (cases rule: Delete_cases[of s fs key])
  case (failed i e)
  then show ?thesis using sort_Find_found_mem(3)[OF assms(1) failed(2)] assms(2) by simp
next
  case (removed i fs1)
  then show ?thesis using sort_Find_found_mem(3)[OF assms(1) removed(2)] assms(2) by simp
qed simp

lemma Delete_failure_unchanged:
  "fst (Delete s fs key) \<noteq> None \<Longrightarrow> snd (Delete s fs key) = (s, fs)"
  by (cases rule: Delete_cases[of s fs key]) simp_all

lemma Delete_index_changed:
  assumes "index (fst (snd (Delete s fs key))) \<noteq> index s"
  shows "fst (Delete s fs key) = None \<and> (\<exists>fs1. files_Remove fs (path_of s key) = Inr fs1)"
  using assms by (cases rule: Delete_cases[of s fs key]) simp_all

lemma Delete_present_fs:
  assumes "total_order (comparator s)" "index_sorted (comparator s) (index s)"
    and "filename s key \<in> set (index s)"
    and "files_Remove fs (path_of s key) = Inr fs1"
  shows "snd (snd (Delete s fs key)) = fs1"
proof (cases rule: Delete_cases[of s fs key])
  case (absent i)
  then show ?thesis
    using sort_Find_present[OF assms(1,2), of "filename s key" i False] assms(3) by auto
next
  case (failed i e)
  then show ?thesis using assms(4) by simp
next
  case (removed i fs1')
  then show ?thesis using assms(4) by simp
qed

lemma Delete_index_changed_fs:
  assumes "index (fst (snd (Delete s fs key))) \<noteq> index s"
  shows "files_Remove fs (path_of s key) = Inr (snd (snd (Delete s fs key)))"
  using assms by (cases rule: Delete_cases[of s fs key]) simp_all

subsection \<open>Put, by the step that fails\<close>

lemma Put_failure_unchanged:
  "fst (Put s fs key v) \<noteq> None \<Longrightarrow> fst (snd (Put s fs key v)) = s"
  by (cases rule: Put_cases[of s fs key v]) simp_all

lemma Put_open_failed:
  "files_OpenFileWriter fs (path_of s key) = Inl e \<Longrightarrow> Put s fs key v = (Some e, s, fs)"
  by (simp add: Put_def path_of_def filename_def Let_def)

lemma Put_encode_failed:
  assumes "files_OpenFileWriter fs (path_of s key) = Inr fs1" "snd (encoder s v) = Some e"
  shows "fst (Put s fs key v) = Some e"
  using assms
  by (cases "encoder s v") (simp add: Put_def path_of_def filename_def Let_def)

lemma Put_close_failed:
  assumes "files_OpenFileWriter fs (path_of s key) = Inr fs1" "snd (encoder s v) = None"
    and "fault fs FsClose (path_of s key) = Some e"
  shows "fst (Put s fs key v) = Some e"
proof -
  obtain b where e: "encoder s v = (b, None)" using assms(2) by (cases "encoder s v") simp
  have "file_Close (file_Write fs1 (path_of s key) b) (path_of s key) = Some e"
    using written_fault[OF assms(1), of b] assms(3) by (simp add: file_Close_def)
  then show ?thesis
    using assms(1) e by (simp add: Put_def path_of_def filename_def Let_def)
qed

lemma Put_index_changed:
  assumes "index (fst (snd (Put s fs key v))) \<noteq> index s"
  shows "fst (Put s fs key v) = None \<and> snd (encoder s v) = None \<and>
         fault fs FsClose (path_of s key) = None \<and>
         (\<exists>fs1. files_OpenFileWriter fs (path_of s key) = Inr fs1) \<and>
         filename s key \<in> set (index (fst (snd (Put s fs key v))))"
proof -
  have ok: "fst (Put s fs key v) = None"
    using assms Put_failure_unchanged[of s fs key v] by force
  obtain fs1 b where w: "files_OpenFileWriter fs (path_of s key) = Inr fs1"
    and e: "encoder s v = (b, None)"
    and c: "file_Close (file_Write fs1 (path_of s key) b) (path_of s key) = None"
    using Put_success[OF ok] by blast
  have "fault fs FsClose (path_of s key) = None"
    using c written_fault[OF w, of b] by (simp add: file_Close_def)
  moreover have "filename s key \<in> set (index (fst (snd (Put s fs key v))))"
    using assms by (cases rule: Put_cases[of s fs key v]) simp_all
  ultimately show ?thesis using ok w e by simp
qed

section \<open>The claims\<close>

text \<open>
  C1. For every store state and every call \<^verbatim>\<open>List(offset, limit)\<close> with \<open>offset\<close> at or
  beyond the Index length, \<^verbatim>\<open>List\<close> returns zero values and succeeds, for every value of
  \<open>limit\<close>, with no out-of-range access of the Index.

  The code reads \<^verbatim>\<open>s.index[i]\<close> for every \<open>i\<close> from \<open>offset\<close> below \<open>limit\<close> and never
  compares \<open>i\<close> with the Index length (lemma \<open>List_offset_beyond_total\<close>): on the empty
  store, \<^verbatim>\<open>List(0, 1)\<close> panics.
\<close>

theorem List_limit_beyond_total_panics:
  "int (length (index (New bytes_T ''d'' None))) \<le> 0 \<and>
   List_op (New bytes_T ''d'' None) fs_d 0 1 = Panic"
  by (simp add: List_offset_beyond_total New_index New_def bytes_T_def)

text \<open>
  C2. If the underlying directory read fails during \<^verbatim>\<open>Load\<close>, then \<^verbatim>\<open>Load\<close> returns a failure
  and the existing Index is left untouched.

  \<^verbatim>\<open>Load\<close> has one return statement, \<^verbatim>\<open>return nil\<close>, and reads the directory through
  \<^verbatim>\<open>files.MustReadDirnames\<close>, which returns names only. With a directory that cannot be
  read, \<^verbatim>\<open>Load\<close> succeeds and the Index \<^verbatim>\<open>["a.dat"]\<close> is replaced by the empty one.
\<close>

theorem Load_failed_read_counterexample:
  "snd (files_ReadDirnames fs_denied (dir store_a)) = Some (Err ''permission denied'') \<and>
   fst (Load store_a fs_denied) = None \<and>
   index store_a = [''a.dat''] \<and>
   index (snd (Load store_a fs_denied)) = []"
  by code_simp

text \<open>
  C2, as amended. \<^verbatim>\<open>Load\<close> never returns a failure: whether or not the directory read
  failed, it returns success and replaces the Index by the names the read returned,
  filtered by extension and sorted.
\<close>

theorem Load_never_fails:
  "fst (Load s fs) = None \<and>
   index (snd (Load s fs)) =
     sort_Slice (\<lambda>a b. comparator s a b < 0)
       (filter (\<lambda>name. filepath_Ext name = ext s) (fst (files_ReadDirnames fs (dir s))))"
  by (simp add: Load_result files_MustReadDirnames_def)

text \<open>
  C3. For every call \<^verbatim>\<open>List(offset, limit)\<close> with nonnegative \<open>limit\<close>, the values returned
  are those decoded, in index order, from the Index positions \<open>i\<close> with
  \<open>offset \<le> i < limit\<close> (\<open>limit\<close> is an absolute terminal index, not \<open>offset + limit\<close>); for
  every negative \<open>limit\<close> the upper bound is the full Index length; and the returned
  \<open>Total\<close> equals the Index length.

  The code does this for the calls whose positions all lie in the Index (lemmas
  \<open>List_in_range_returns\<close> and \<open>List_returned_page\<close>). It never compares the bound with the
  Index length: a call with \<open>offset < limit\<close> and \<open>limit\<close> beyond the Index length returns
  no page (lemma \<open>List_past_end\<close>). On the Index of two entries \<^verbatim>\<open>List(0, 2)\<close> returns
  both values and \<^verbatim>\<open>List(0, 3)\<close> panics at \<^verbatim>\<open>s.index[2]\<close>.
\<close>

theorem List_past_end_panics:
  "int (length (index store_ak)) = 2 \<and>
   List_op store_ak fs_ak 0 2 =
     Return (\<lparr>Values = [''w'', ''v''], Offset = 0, Limit = 2, Total = 2\<rparr>, None) \<and>
   List_op store_ak fs_ak 0 3 = Panic"
  by code_simp

text \<open>
  C4. After \<^verbatim>\<open>Load\<close> returns, the Index contains exactly those directory entry names that
  have the configured extension, sorted per the configured comparator, for every
  configured extension string.

  \<^verbatim>\<open>Put\<close>, \<^verbatim>\<open>Get\<close> and \<^verbatim>\<open>Delete\<close> name a file by appending the extension to the escaped
  key; \<^verbatim>\<open>Load\<close> keeps a name when \<^verbatim>\<open>filepath.Ext\<close> of it, the suffix from its last dot,
  equals the extension (lemma \<open>Load_index_set\<close>). With the extension \<^verbatim>\<open>.tar.gz\<close> the file
  \<^verbatim>\<open>a.tar.gz\<close> that \<^verbatim>\<open>Put("a", "v")\<close> wrote is in the directory, its \<^verbatim>\<open>filepath.Ext\<close> is
  \<^verbatim>\<open>.gz\<close>, and \<^verbatim>\<open>Load\<close> leaves it out of the Index: \<^verbatim>\<open>Get("a")\<close> then fails with
  \<^verbatim>\<open>ErrNotExist\<close>.
\<close>

theorem Load_misses_own_file:
  "fst (Put (New bytes_T ''d'' (Some targz_opts)) fs_d ''a'' ''v'') = None \<and>
   index store_targz = [''a.tar.gz''] \<and>
   files_ReadDirnames fs_targz ''d'' = ([''a.tar.gz''], None) \<and>
   filepath_Ext ''a.tar.gz'' = ''.gz'' \<and>
   index (snd (Load store_targz fs_targz)) = [] \<and>
   snd (Get (snd (Load store_targz fs_targz)) fs_targz ''a'') = Some ErrNotExist"
  by code_simp

text \<open>
  C5. For every finite sequence of Load, Put and Delete calls starting from a newly
  created store, if the configured comparator is a total order, the Index is sorted
  according to the comparator after each call returns. (The statement is about every
  sequence, hence about every prefix of a sequence.)
\<close>

theorem sort_invariant:
  assumes "total_order (comparator (New T d opt))"
  shows "index_sorted (comparator (New T d opt)) (index (fst (run (New T d opt) fs calls)))"
  using run_invariant[OF assms, of fs calls] by (simp add: New_index index_sorted_def)

theorem sort_invariant_witness:
  "total_order (comparator (New bytes_T ''d'' None)) \<and>
   index_sorted (comparator (New bytes_T ''d'' None))
     (index (fst (run (New bytes_T ''d'' None) fs_d
        [Put_call ''k'' ''v'', Put_call ''a'' ''w'', Load_call, Delete_call ''k''])))"
proof -
  have h: "total_order (comparator (New bytes_T ''d'' None))"
    by (simp add: New_def total_order_strings_Compare)
  show ?thesis using h sort_invariant[OF h] by blast
qed

text \<open>
  C6. For all keys \<open>k\<close> and values \<open>v\<close>, if the decoder is a left inverse of the encoder,
  a successful \<^verbatim>\<open>Put(k, v)\<close> followed by \<^verbatim>\<open>Get(k)\<close> returns \<open>v\<close>. The store is one whose
  Index is sorted under a comparator that is a total order (as after any sequence of
  calls on a new store), and opening the file for reading meets no I/O fault.
\<close>

theorem Put_Get_round_trip:
  assumes "total_order (comparator s)" "index_sorted (comparator s) (index s)"
    and "codec_ok (encoder s) (decoder s)"
    and "Put s fs key v = (None, s', fs')"
    and "fault fs' FsOpenRead (path_of s key) = None"
  shows "Get s' fs' key = (v, None)"
  using assms by (rule Put_then_Get)

theorem Put_Get_round_trip_witness:
  "total_order (comparator store_a) \<and> index_sorted (comparator store_a) (index store_a) \<and>
   codec_ok (encoder store_a) (decoder store_a) \<and>
   fst (Put store_a fs_a ''b c'' ''hello'') = None \<and>
   index (fst (snd (Put store_a fs_a ''b c'' ''hello''))) = [''a.dat'', ''b%20c.dat''] \<and>
   Get (fst (snd (Put store_a fs_a ''b c'' ''hello'')))
       (snd (snd (Put store_a fs_a ''b c'' ''hello''))) ''b c'' = (''hello'', None)"
proof -
  let ?P = "Put store_a fs_a ''b c'' ''hello''"
  have t: "total_order (comparator store_a)"
    by (simp add: store_a_fields total_order_strings_Compare)
  have i: "index store_a = [''a.dat'']" by code_simp
  have srt: "index_sorted (comparator store_a) (index store_a)"
    by (simp add: i index_sorted_def)
  have c: "codec_ok (encoder store_a) (decoder store_a)"
    by (simp add: store_a_fields codec_ok_bytes)
  have ok: "fst ?P = None" by code_simp
  then have p: "?P = (None, fst (snd ?P), snd (snd ?P))"
    by (metis prod.collapse)
  have f: "fault (snd (snd ?P)) FsOpenRead (path_of store_a ''b c'') = None" by code_simp
  have idx: "index (fst (snd ?P)) = [''a.dat'', ''b%20c.dat'']" by code_simp
  show ?thesis
    using t srt c ok idx Put_Get_round_trip[OF t srt c p f] by simp
qed

text \<open>
  C7. During \<^verbatim>\<open>Delete(key)\<close>, if the key's filename is present in the Index and the file
  removal fails, then \<^verbatim>\<open>Delete\<close> returns that failure and the Index (and the filesystem)
  is unchanged; whenever \<^verbatim>\<open>Delete\<close> fails, nothing has changed; the Index changes only
  when the removal of the file has succeeded, and the filesystem \<^verbatim>\<open>Delete\<close> returns is then
  the one the removal left, in which the file that was at the path is gone; and when
  the removal succeeds, \<^verbatim>\<open>Delete\<close> succeeds, the filename is removed from the Index and the
  file is removed from the filesystem. The store is one whose Index is sorted under a
  comparator that is a total order.
\<close>

theorem Delete_failure_keeps_index:
  assumes "total_order (comparator s)" "index_sorted (comparator s) (index s)"
  shows "(filename s key \<in> set (index s) \<and> files_Remove fs (path_of s key) = Inl e \<longrightarrow>
            Delete s fs key = (Some e, s, fs)) \<and>
         (fst (Delete s fs key) \<noteq> None \<longrightarrow> snd (Delete s fs key) = (s, fs)) \<and>
         (index (fst (snd (Delete s fs key))) \<noteq> index s \<longrightarrow>
            fst (Delete s fs key) = None \<and>
            files_Remove fs (path_of s key) = Inr (snd (snd (Delete s fs key))) \<and>
            map_of (nodes fs) (path_of s key) \<noteq> None \<and>
            map_of (nodes (snd (snd (Delete s fs key)))) (path_of s key) = None) \<and>
         (filename s key \<in> set (index s) \<and> files_Remove fs (path_of s key) = Inr fs1 \<longrightarrow>
            Delete s fs key = (None, s\<lparr>index := remove1 (filename s key) (index s)\<rparr>, fs1) \<and>
            map_of (nodes fs) (path_of s key) \<noteq> None \<and>
            map_of (nodes fs1) (path_of s key) = None)"
proof (intro conjI impI)
  assume "filename s key \<in> set (index s) \<and> files_Remove fs (path_of s key) = Inl e"
  then show "Delete s fs key = (Some e, s, fs)"
    using Delete_present(1)[OF assms] by blast
next
  assume "fst (Delete s fs key) \<noteq> None"
  then show "snd (Delete s fs key) = (s, fs)" by (rule Delete_failure_unchanged)
next
  assume a: "index (fst (snd (Delete s fs key))) \<noteq> index s"
  show "fst (Delete s fs key) = None" using Delete_index_changed[OF a] by blast
  show r: "files_Remove fs (path_of s key) = Inr (snd (snd (Delete s fs key)))"
    by (rule Delete_index_changed_fs[OF a])
  show "map_of (nodes fs) (path_of s key) \<noteq> None" by (rule files_Remove_gone(4)[OF r])
  show "map_of (nodes (snd (snd (Delete s fs key)))) (path_of s key) = None"
    by (rule files_Remove_gone(1)[OF r])
next
  assume a: "filename s key \<in> set (index s) \<and> files_Remove fs (path_of s key) = Inr fs1"
  then have m: "filename s key \<in> set (index s)" and r: "files_Remove fs (path_of s key) = Inr fs1"
    by blast+
  have d: "fst (Delete s fs key) = None"
    "fst (snd (Delete s fs key)) = s\<lparr>index := remove1 (filename s key) (index s)\<rparr>"
    using Delete_present(2)[OF assms m r] by blast+
  have "snd (snd (Delete s fs key)) = fs1" by (rule Delete_present_fs[OF assms m r])
  then show "Delete s fs key = (None, s\<lparr>index := remove1 (filename s key) (index s)\<rparr>, fs1)"
    using d by (simp add: prod_eq_iff)
  show "map_of (nodes fs) (path_of s key) \<noteq> None" by (rule files_Remove_gone(4)[OF r])
  show "map_of (nodes fs1) (path_of s key) = None" by (rule files_Remove_gone(1)[OF r])
qed

theorem Delete_failure_keeps_index_witness:
  "filename store_a ''a'' \<in> set (index store_a) \<and>
   isl (files_Remove fs_locked (path_of store_a ''a'')) \<and>
   projl (files_Remove fs_locked (path_of store_a ''a'')) = Err ''permission denied'' \<and>
   fst (Delete store_a fs_locked ''a'') = Some (Err ''permission denied'') \<and>
   index (fst (snd (Delete store_a fs_locked ''a''))) = [''a.dat''] \<and>
   nodes (snd (snd (Delete store_a fs_locked ''a''))) = [(''d'', Dir), (''d/a.dat'', File ''v'')] \<and>
   nodes fs_a = [(''d'', Dir), (''d/a.dat'', File ''v'')] \<and>
   nodes (projr (files_Remove fs_a (path_of store_a ''a''))) = [(''d'', Dir)] \<and>
   fst (Delete store_a fs_a ''a'') = None \<and>
   index (fst (snd (Delete store_a fs_a ''a''))) = [] \<and>
   nodes (snd (snd (Delete store_a fs_a ''a''))) = [(''d'', Dir)] \<and>
   map_of (nodes (snd (snd (Delete store_a fs_a ''a'')))) (path_of store_a ''a'') = None"
proof -
  have t: "total_order (comparator store_a)"
    by (simp add: store_a_fields total_order_strings_Compare)
  have i: "index store_a = [''a.dat'']" by code_simp
  have srt: "index_sorted (comparator store_a) (index store_a)"
    by (simp add: i index_sorted_def)
  have m: "filename store_a ''a'' \<in> set (index store_a)" by code_simp
  have r0: "isl (files_Remove fs_locked (path_of store_a ''a''))"
    "projl (files_Remove fs_locked (path_of store_a ''a'')) = Err ''permission denied''"
    by code_simp+
  then have r: "files_Remove fs_locked (path_of store_a ''a'') = Inl (Err ''permission denied'')"
    by (cases "files_Remove fs_locked (path_of store_a ''a'')") simp_all
  have "\<not> isl (files_Remove fs_a (path_of store_a ''a''))" by code_simp
  then obtain fs1 where r2: "files_Remove fs_a (path_of store_a ''a'') = Inr fs1"
    by (cases "files_Remove fs_a (path_of store_a ''a'')") simp_all
  have n: "nodes (projr (files_Remove fs_a (path_of store_a ''a''))) = [(''d'', Dir)]"
    by code_simp
  have na: "nodes fs_a = [(''d'', Dir), (''d/a.dat'', File ''v'')]" by code_simp
  have l: "nodes fs_locked = [(''d'', Dir), (''d/a.dat'', File ''v'')]"
    by (simp add: fs_locked_def)
  have rm: "remove1 (filename store_a ''a'') (index store_a) = []" by code_simp
  have f: "Delete store_a fs_locked ''a'' = (Some (Err ''permission denied''), store_a, fs_locked)"
    using Delete_failure_keeps_index[OF t srt, of "''a''" fs_locked "Err ''permission denied''"] m r
    by blast
  have g: "Delete store_a fs_a ''a'' =
      (None, store_a\<lparr>index := remove1 (filename store_a ''a'') (index store_a)\<rparr>, fs1)"
    "map_of (nodes fs1) (path_of store_a ''a'') = None"
    using Delete_failure_keeps_index[OF t srt, of "''a''" fs_a _ fs1] m r2 by blast+
  have n1: "nodes fs1 = [(''d'', Dir)]" using n r2 by simp
  show ?thesis
    using m r0 i l na n rm f g n1 by simp
qed

text \<open>
  C8. For every key whose filename is absent from the Index, \<^verbatim>\<open>Delete\<close> succeeds and
  leaves the Index (and the filesystem) unchanged; and calling \<^verbatim>\<open>Delete\<close> twice in a row
  leaves the store and the filesystem as calling it once does, the second call
  succeeding when the first did. The second part is for an Index that is sorted and has
  no duplicate filename.
\<close>

theorem Delete_idempotent:
  assumes "total_order (comparator s)"
  shows "(filename s key \<notin> set (index s) \<longrightarrow> Delete s fs key = (None, s, fs)) \<and>
         (index_sorted (comparator s) (index s) \<and> distinct (index s) \<longrightarrow>
            snd (Delete (fst (snd (Delete s fs key))) (snd (snd (Delete s fs key))) key) =
              snd (Delete s fs key) \<and>
            (fst (Delete s fs key) = None \<longrightarrow>
               fst (Delete (fst (snd (Delete s fs key))) (snd (snd (Delete s fs key))) key) = None))"
proof (intro conjI impI)
  assume "filename s key \<notin> set (index s)"
  then show "Delete s fs key = (None, s, fs)" by (rule Delete_absent[OF assms])
next
  assume inv: "index_sorted (comparator s) (index s) \<and> distinct (index s)"
  let ?D = "Delete s fs key"
  have twice: "Delete (fst (snd ?D)) (snd (snd ?D)) key =
      (if fst ?D = None then (None, snd ?D) else ?D)"
  proof (cases "filename s key \<in> set (index s)")
    case False
    then have "?D = (None, s, fs)" by (rule Delete_absent[OF assms])
    then show ?thesis by simp
  next
    case True
    show ?thesis
    proof (cases "files_Remove fs (path_of s key)")
      case (Inl e)
      have "?D = (Some e, s, fs)"
        using Delete_present(1)[OF assms _ True Inl] inv by blast
      then show ?thesis by simp
    next
      case (Inr fs1)
      let ?s1 = "s\<lparr>index := remove1 (filename s key) (index s)\<rparr>"
      have d: "fst ?D = None" "fst (snd ?D) = ?s1"
        using Delete_present(2)[OF assms _ True Inr] inv by blast+
      have "filename ?s1 key \<notin> set (index ?s1)" using inv by simp
      moreover have "total_order (comparator ?s1)" using assms by simp
      ultimately have "Delete ?s1 (snd (snd ?D)) key = (None, ?s1, snd (snd ?D))"
        by (rule Delete_absent[rotated])
      then show ?thesis using d by (simp add: prod_eq_iff)
    qed
  qed
  show "snd (Delete (fst (snd ?D)) (snd (snd ?D)) key) = snd ?D"
    using twice by (simp split: if_splits)
  assume "fst ?D = None"
  then show "fst (Delete (fst (snd ?D)) (snd (snd ?D)) key) = None"
    using twice by simp
qed


theorem Delete_idempotent_witness:
  "filename store_a ''zz'' \<notin> set (index store_a) \<and>
   fst (Delete store_a fs_a ''zz'') = None \<and>
   index (fst (snd (Delete store_a fs_a ''zz''))) = [''a.dat''] \<and>
   nodes (snd (snd (Delete store_a fs_a ''zz''))) = nodes fs_a \<and>
   index_sorted (comparator store_a) (index store_a) \<and> distinct (index store_a) \<and>
   fst (Delete store_a fs_a ''a'') = None \<and>
   index (fst (snd (Delete store_a fs_a ''a''))) = [] \<and>
   fst (Delete (fst (snd (Delete store_a fs_a ''a''))) (snd (snd (Delete store_a fs_a ''a''))) ''a'') = None \<and>
   index (fst (snd (Delete (fst (snd (Delete store_a fs_a ''a'')))
                       (snd (snd (Delete store_a fs_a ''a''))) ''a''))) = [] \<and>
   nodes (snd (snd (Delete (fst (snd (Delete store_a fs_a ''a'')))
                       (snd (snd (Delete store_a fs_a ''a''))) ''a''))) =
     nodes (snd (snd (Delete store_a fs_a ''a'')))"
proof -
  have t: "total_order (comparator store_a)"
    by (simp add: store_a_fields total_order_strings_Compare)
  have i: "index store_a = [''a.dat'']" by code_simp
  have srt: "index_sorted (comparator store_a) (index store_a)" "distinct (index store_a)"
    by (simp_all add: i index_sorted_def)
  have m: "filename store_a ''zz'' \<notin> set (index store_a)" by code_simp
  have d: "fst (Delete store_a fs_a ''a'') = None"
    "index (fst (snd (Delete store_a fs_a ''a''))) = []"
    by code_simp+
  show ?thesis
    using m i srt d Delete_idempotent[OF t, of "''zz''" fs_a] Delete_idempotent[OF t, of "''a''" fs_a]
    by simp
qed

text \<open>
  C9. In \<^verbatim>\<open>Put(key, value)\<close>, an encode error takes priority over a close error (it is
  returned whatever the close does), a close error is returned when the encoding itself
  succeeded, an open error is returned with nothing changed, and the Index is searched
  and the filename inserted only after the write and the close have both succeeded: on
  any failure of \<^verbatim>\<open>Put\<close> the store, and so its Index, is unchanged.
\<close>

theorem Put_error_order:
  "(files_OpenFileWriter fs (path_of s key) = Inr fs1 \<and> snd (encoder s v) = Some e \<longrightarrow>
      fst (Put s fs key v) = Some e) \<and>
   (files_OpenFileWriter fs (path_of s key) = Inr fs1 \<and> snd (encoder s v) = None \<and>
      fault fs FsClose (path_of s key) = Some e \<longrightarrow> fst (Put s fs key v) = Some e) \<and>
   (files_OpenFileWriter fs (path_of s key) = Inl e \<longrightarrow> Put s fs key v = (Some e, s, fs)) \<and>
   (fst (Put s fs key v) \<noteq> None \<longrightarrow> fst (snd (Put s fs key v)) = s) \<and>
   (index (fst (snd (Put s fs key v))) \<noteq> index s \<longrightarrow>
      fst (Put s fs key v) = None \<and> snd (encoder s v) = None \<and>
      fault fs FsClose (path_of s key) = None \<and>
      (\<exists>fs1. files_OpenFileWriter fs (path_of s key) = Inr fs1) \<and>
      filename s key \<in> set (index (fst (snd (Put s fs key v)))))"
  using Put_encode_failed[of fs s key fs1 v e] Put_close_failed[of fs s key fs1 v e]
    Put_open_failed[of fs s key e v] Put_failure_unchanged[of s fs key v]
    Put_index_changed[of s fs key v]
  by blast


theorem Put_error_order_witness:
  "snd (encoder (New bytes_T ''d'' (Some failing_opts)) ''hello'') = Some (Err ''encode failed'') \<and>
   fault fs_close_fails FsClose (path_of (New bytes_T ''d'' (Some failing_opts)) ''k'') =
     Some (Err ''close failed'') \<and>
   fst (Put (New bytes_T ''d'' (Some failing_opts)) fs_close_fails ''k'' ''hello'') =
     Some (Err ''encode failed'') \<and>
   snd (encoder (New bytes_T ''d'' None) ''hello'') = None \<and>
   fst (Put (New bytes_T ''d'' None) fs_close_fails ''k'' ''hello'') = Some (Err ''close failed'') \<and>
   index (fst (snd (Put (New bytes_T ''d'' None) fs_close_fails ''k'' ''hello''))) = [] \<and>
   fst (Put (New bytes_T ''d'' None) fs_read_only ''k'' ''hello'') =
     Some (Err ''read-only file system'') \<and>
   index (fst (snd (Put (New bytes_T ''d'' None) fs_d ''k'' ''hello''))) = [''k.dat''] \<and>
   fst (Put (New bytes_T ''d'' None) fs_d ''k'' ''hello'') = None \<and>
   fault fs_d FsClose (path_of (New bytes_T ''d'' None) ''k'') = None"
proof -
  let ?sf = "New bytes_T ''d'' (Some failing_opts) :: string LocalStore"
  let ?s0 = "New bytes_T ''d'' None :: string LocalStore"
  have e1: "snd (encoder ?sf ''hello'') = Some (Err ''encode failed'')"
    by (simp add: New_def failing_opts_def)
  have c1: "fault fs_close_fails FsClose (path_of ?sf ''k'') = Some (Err ''close failed'')"
    by (simp add: fs_close_fails_def)
  have "\<not> isl (files_OpenFileWriter fs_close_fails (path_of ?sf ''k''))" by code_simp
  then obtain fs1 where o1: "files_OpenFileWriter fs_close_fails (path_of ?sf ''k'') = Inr fs1"
    by (cases "files_OpenFileWriter fs_close_fails (path_of ?sf ''k'')") simp_all
  have e2: "snd (encoder ?s0 ''hello'') = None"
    by (simp add: New_def bytes_T_def)
  have c2: "fault fs_close_fails FsClose (path_of ?s0 ''k'') = Some (Err ''close failed'')"
    by (simp add: fs_close_fails_def)
  have "\<not> isl (files_OpenFileWriter fs_close_fails (path_of ?s0 ''k''))" by code_simp
  then obtain fs2 where o2: "files_OpenFileWriter fs_close_fails (path_of ?s0 ''k'') = Inr fs2"
    by (cases "files_OpenFileWriter fs_close_fails (path_of ?s0 ''k'')") simp_all
  have "isl (files_OpenFileWriter fs_read_only (path_of ?s0 ''k''))"
    "projl (files_OpenFileWriter fs_read_only (path_of ?s0 ''k'')) = Err ''read-only file system''"
    by code_simp+
  then have o3: "files_OpenFileWriter fs_read_only (path_of ?s0 ''k'') =
      Inl (Err ''read-only file system'')"
    by (cases "files_OpenFileWriter fs_read_only (path_of ?s0 ''k'')") simp_all
  have i0: "index ?s0 = []" by (rule New_index)
  have r1: "fst (Put ?sf fs_close_fails ''k'' ''hello'') = Some (Err ''encode failed'')"
    using Put_error_order[of fs_close_fails ?sf "''k''" fs1 "''hello''" "Err ''encode failed''"]
      o1 e1 by blast
  have r2: "fst (Put ?s0 fs_close_fails ''k'' ''hello'') = Some (Err ''close failed'')"
    using Put_error_order[of fs_close_fails ?s0 "''k''" fs2 "''hello''" "Err ''close failed''"]
      o2 e2 c2 by blast
  have "fst (snd (Put ?s0 fs_close_fails ''k'' ''hello'')) = ?s0"
    using Put_error_order[of fs_close_fails ?s0 "''k''" fs2 "''hello''" "Err ''close failed''"]
      r2 by simp
  then have r3: "index (fst (snd (Put ?s0 fs_close_fails ''k'' ''hello''))) = []"
    using i0 by simp
  have "Put ?s0 fs_read_only ''k'' ''hello'' = (Some (Err ''read-only file system''), ?s0, fs_read_only)"
    using Put_error_order[of fs_read_only ?s0 "''k''" _ "''hello''" "Err ''read-only file system''"]
      o3 by blast
  then have r4: "fst (Put ?s0 fs_read_only ''k'' ''hello'') = Some (Err ''read-only file system'')"
    by simp
  have i5: "index (fst (snd (Put ?s0 fs_d ''k'' ''hello''))) = [''k.dat'']" by code_simp
  then have "index (fst (snd (Put ?s0 fs_d ''k'' ''hello''))) \<noteq> index ?s0"
    using i0 by simp
  then have r5: "fst (Put ?s0 fs_d ''k'' ''hello'') = None"
    "fault fs_d FsClose (path_of ?s0 ''k'') = None"
    using Put_error_order[of fs_d ?s0 "''k''" _ "''hello''"] by blast+
  from e1 c1 r1 e2 r2 r3 r4 i5 r5 show ?thesis by blast
qed

text \<open>
  C10. For all keys \<open>k\<close> and values \<open>v1\<close>, \<open>v2\<close>, a successful \<^verbatim>\<open>Put(k, v1)\<close> followed by a
  successful \<^verbatim>\<open>Put(k, v2)\<close> leaves the Index length unchanged (the second \<^verbatim>\<open>Put\<close> inserts
  no duplicate filename: the Index is the same), and a subsequent \<^verbatim>\<open>Get(k)\<close> returns
  \<open>v2\<close>. The store is one whose Index is sorted under a comparator that is a total
  order, the decoder is a left inverse of the encoder, and opening the file for reading
  meets no I/O fault.
\<close>

theorem Put_overwrite_keeps_length:
  assumes "total_order (comparator s)" "index_sorted (comparator s) (index s)"
    and "codec_ok (encoder s) (decoder s)"
    and "Put s fs key v1 = (None, s1, fs1)"
    and "Put s1 fs1 key v2 = (None, s2, fs2)"
    and "fault fs2 FsOpenRead (path_of s key) = None"
  shows "length (index s2) = length (index s1) \<and> index s2 = index s1 \<and>
         Get s2 fs2 key = (v2, None)"
proof -
  obtain idx where s1: "s1 = s\<lparr>index := idx\<rparr>"
    using Put_store[of s fs key v1] assms(4) by auto
  have t1: "total_order (comparator s1)" using assms(1) s1 by simp
  have srt1: "index_sorted (comparator s1) (index s1)"
    using Put_sorted[OF assms(1,2), of fs key v1] assms(4) s1 by simp
  have c1: "codec_ok (encoder s1) (decoder s1)" using assms(3) s1 by simp
  have mem: "filename s1 key \<in> set (index s1)"
    using Put_index_member[OF assms(1), of fs key v1] assms(4) s1 by simp
  have f1: "fault fs2 FsOpenRead (path_of s1 key) = None" using assms(6) s1 by simp
  have same: "index s2 = index s1"
  proof (cases rule: Put_cases[of s1 fs1 key v2])
    case (failed e fs')
    with assms(5) show ?thesis by simp
  next
    case (present fs')
    with assms(5) show ?thesis by simp
  next
    case (inserted fs' i)
    from sort_Find_present[OF t1 srt1 inserted(2)] mem show ?thesis by simp
  qed
  moreover have "Get s2 fs2 key = (v2, None)"
    by (rule Put_then_Get[OF t1 srt1 c1 assms(5) f1])
  ultimately show ?thesis by simp
qed

theorem Put_overwrite_keeps_length_witness:
  "fst (Put store_a fs_a ''a'' ''second'') = None \<and>
   index store_a = [''a.dat''] \<and>
   index (fst (snd (Put store_a fs_a ''a'' ''second''))) = index store_a \<and>
   length (index (fst (snd (Put store_a fs_a ''a'' ''second'')))) = length (index store_a) \<and>
   Get (fst (snd (Put store_a fs_a ''a'' ''second'')))
       (snd (snd (Put store_a fs_a ''a'' ''second''))) ''a'' = (''second'', None)"
proof -
  let ?s0 = "New bytes_T ''d'' None :: string LocalStore"
  let ?P1 = "Put ?s0 fs_d ''a'' ''v''"
  let ?P2 = "Put store_a fs_a ''a'' ''second''"
  have t: "total_order (comparator ?s0)"
    by (simp add: New_default total_order_strings_Compare)
  have srt: "index_sorted (comparator ?s0) (index ?s0)"
    by (simp add: New_index index_sorted_def)
  have c: "codec_ok (encoder ?s0) (decoder ?s0)"
    by (simp add: New_default codec_ok_bytes)
  have "fst ?P1 = None" by code_simp
  then have p1: "?P1 = (None, store_a, fs_a)"
    unfolding store_a_def fs_a_def by (metis prod.collapse)
  have ok2: "fst ?P2 = None" by code_simp
  then have p2: "?P2 = (None, fst (snd ?P2), snd (snd ?P2))"
    by (metis prod.collapse)
  have f: "fault (snd (snd ?P2)) FsOpenRead (path_of ?s0 ''a'') = None" by code_simp
  have i: "index store_a = [''a.dat'']" by code_simp
  show ?thesis
    using ok2 i Put_overwrite_keeps_length[OF t srt c p1 p2 f] by simp
qed

end
